theory Spec2Isabelle
  imports Main "HOL-Library.Word" "HOL-Library.Signed_Division"
begin

unbundle bit_operations_syntax

section \<open>Go's time values, as the cache uses them\<close>

text \<open>
  Every timestamp of the cache is either \<^verbatim>\<open>time.Now().UTC()\<close>, a \<^verbatim>\<open>time.Unix\<close> value, the
  zero \<^verbatim>\<open>time.Time\<close>, or the result of \<^verbatim>\<open>Add\<close> on one of them. \<^verbatim>\<open>UTC()\<close> strips the
  monotonic clock reading, so each of them is a wall-clock time: a signed 64-bit count of
  seconds since January 1 of year 1 (the field \<^verbatim>\<open>ext\<close>) and a nanosecond part in
  \<open>[0, 999999999]\<close> (an \<^verbatim>\<open>int32\<close> read from the field \<^verbatim>\<open>wall\<close>). The location pointer
  takes no part in \<^verbatim>\<open>After\<close> or \<^verbatim>\<open>Add\<close> and is left out. A \<^verbatim>\<open>time.Duration\<close> is an
  \<^verbatim>\<open>int64\<close> count of nanoseconds.
\<close>

type_synonym int64 = "64 word"
type_synonym int32 = "32 word"
type_synonym uint64 = "64 word"
type_synonym Duration = int64

record Time =
  ext :: int64
  nsec :: int32

definition zeroTime :: Time where
  "zeroTime = \<lparr>ext = 0, nsec = 0\<rparr>"

definition unixToInternal :: int64 where
  "unixToInternal = 62135596800"

definition MaxInt64 :: int64 where
  "MaxInt64 = 9223372036854775807"

text \<open>\<^verbatim>\<open>time.Unix(sec, nsec)\<close> for \<open>0 \<le> nsec < 1e9\<close> (the cache passes \<open>nsec = 0\<close>): the
  \<^verbatim>\<open>int64\<close> sum \<^verbatim>\<open>sec + unixToInternal\<close> wraps around.\<close>

definition Unix :: "int64 \<Rightarrow> int32 \<Rightarrow> Time" where
  "Unix sec ns = \<lparr>ext = sec + unixToInternal, nsec = ns\<rparr>"

text \<open>\<^verbatim>\<open>t.After(u)\<close> on wall-clock times: signed comparison of the seconds, then of the
  nanoseconds.\<close>

definition After :: "Time \<Rightarrow> Time \<Rightarrow> bool" where
  "After t u = (sint (ext t) > sint (ext u) \<or> (ext t = ext u \<and> sint (nsec t) > sint (nsec u)))"

text \<open>\<^verbatim>\<open>addSec\<close>: the sum saturates when it overflows (Go releases before the overflow check
  let it wrap around; nothing below depends on which).\<close>

definition addSec :: "Time \<Rightarrow> int64 \<Rightarrow> Time" where
  "addSec t d =
     (let sum = ext t + d in
      if (sint sum > sint (ext t)) = (sint d > 0) then t\<lparr>ext := sum\<rparr>
      else if sint d > 0 then t\<lparr>ext := 9223372036854775807\<rparr>
      else t\<lparr>ext := - 9223372036854775807\<rparr>)"

text \<open>\<^verbatim>\<open>t.Add(d)\<close>: Go's \<^verbatim>\<open>/\<close> and \<^verbatim>\<open>%\<close> truncate towards zero.\<close>

definition Time_Add :: "Time \<Rightarrow> Duration \<Rightarrow> Time" where
  "Time_Add t d =
     (let dsec = (word_of_int (sint d sdiv 1000000000) :: int64);
          ns = nsec t + (word_of_int (sint d smod 1000000000) :: int32)
      in if sint ns \<ge> 1000000000 then addSec (t\<lparr>nsec := ns - 1000000000\<rparr>) (dsec + 1)
         else if sint ns < 0 then addSec (t\<lparr>nsec := ns + 1000000000\<rparr>) (dsec - 1)
         else addSec (t\<lparr>nsec := ns\<rparr>) dsec)"

text \<open>The instant a wall-clock time denotes, in nanoseconds since January 1 of year 1: the
  measure in which \<^verbatim>\<open>t.Add(d)\<close> is \<open>t + d\<close>.\<close>

definition nanos :: "Time \<Rightarrow> int" where
  "nanos t = sint (ext t) * 1000000000 + sint (nsec t)"

section \<open>The key hasher: 64-bit FNV-1a\<close>

fun fnv_write :: "uint64 \<Rightarrow> string \<Rightarrow> uint64" where
  "fnv_write h [] = h"
| "fnv_write h (c # cs) = fnv_write ((h XOR of_char c) * 1099511628211) cs"

definition fnv64a :: "string \<Rightarrow> uint64" where
  "fnv64a key = fnv_write 14695981039346656037 key"

section \<open>The slot store\<close>

datatype error = ErrCollision | ErrDNE | PanicIndexOutOfRange | PanicNilFunc

record 'a Slot =
  Item :: 'a
  ExpiresAt :: Time
  empty :: bool

text \<open>\<^verbatim>\<open>OnExpires\<close> is a function value: the field says whether it is set (not nil). What the
  callback does with an item is outside the store.\<close>

record CacheConfig =
  OnExpires :: bool
  Refresh :: bool
  RefreshDuration :: Duration
  CleanDuration :: Duration

record 'a Cache =
  slots :: "'a Slot list"
  keys :: "uint64 \<rightharpoonup> nat"
  nextExp :: Time
  config :: CacheConfig

definition Second :: Duration where
  "Second = 1000000000"

definition defaultCleanDuration :: Duration where
  "defaultCleanDuration = 10 * Second"

definition defaultRefreshDuration :: Duration where
  "defaultRefreshDuration = 1 * Second"

definition defaultConfig :: CacheConfig where
  "defaultConfig =
     \<lparr>OnExpires = False, Refresh = False, RefreshDuration = 0, CleanDuration = defaultCleanDuration\<rparr>"

text \<open>\<^verbatim>\<open>NewCache\<close>: \<open>None\<close> is the nil configuration. The janitor goroutine it starts is
  \<open>janitor\<close> below.\<close>

definition NewCache :: "CacheConfig option \<Rightarrow> 'a Cache" where
  "NewCache cfg =
     (let c0 = (case cfg of None \<Rightarrow> defaultConfig | Some c \<Rightarrow> c);
          c1 = (if CleanDuration c0 = 0 then c0\<lparr>CleanDuration := defaultCleanDuration\<rparr> else c0);
          c2 = (if Refresh c1 \<and> RefreshDuration c1 = 0
                then c1\<lparr>RefreshDuration := defaultRefreshDuration\<rparr> else c1)
      in \<lparr>slots = [], keys = Map.empty, nextExp = zeroTime, config = c2\<rparr>)"

text \<open>The slot-reuse loop of \<^verbatim>\<open>add\<close>: \<open>i\<close> is the index of the head of the remaining slots,
  \<open>fit\<close> and \<open>idx\<close> are the loop's variables. The loop has no \<^verbatim>\<open>break\<close>.\<close>

fun add_loop :: "'a Slot \<Rightarrow> nat \<Rightarrow> 'a Slot list \<Rightarrow> bool \<Rightarrow> nat \<Rightarrow> 'a Slot list \<times> bool \<times> nat" where
  "add_loop ts i [] fit idx = ([], fit, idx)"
| "add_loop ts i (c # cs) fit idx =
     (if empty c
      then (case add_loop ts (i + 1) cs True i of (cs', r) \<Rightarrow> (ts # cs', r))
      else (case add_loop ts (i + 1) cs fit idx of (cs', r) \<Rightarrow> (c # cs', r)))"

definition add :: "uint64 \<Rightarrow> 'a \<Rightarrow> Time \<Rightarrow> 'a Cache \<Rightarrow> error option \<times> 'a Cache" where
  "add key item expiresAt t =
     (case keys t key of
        Some _ \<Rightarrow> (Some ErrCollision, t)
      | None \<Rightarrow>
          (let ts = \<lparr>Item = item, ExpiresAt = expiresAt, empty = False\<rparr>;
               (slots1, fit, idx1) = add_loop ts 0 (slots t) False 0;
               (slots2, idx) = (if \<not> fit then (slots1 @ [ts], length slots1) else (slots1, idx1));
               nextExp' = (if After (nextExp t) expiresAt \<or> length slots2 = 1
                           then expiresAt else nextExp t)
           in (None, t\<lparr>slots := slots2, nextExp := nextExp', keys := (keys t)(key \<mapsto> idx)\<rparr>)))"

text \<open>The sweep loop of \<^verbatim>\<open>clean\<close>. \<open>clk i\<close> is the reading of \<^verbatim>\<open>time.Now().UTC()\<close> taken
  while slot \<open>i\<close> is examined (the clock is read once per non-empty slot).\<close>

fun clean_loop ::
  "(nat \<Rightarrow> Time) \<Rightarrow> nat \<Rightarrow> 'a Slot list \<Rightarrow> 'a Slot list \<Rightarrow> Time \<Rightarrow> bool
     \<Rightarrow> 'a Slot list \<times> 'a Slot list \<times> Time \<times> bool" where
  "clean_loop clk i [] expired nearestExp firstNonEmpty = ([], expired, nearestExp, firstNonEmpty)"
| "clean_loop clk i (object # rest) expired nearestExp firstNonEmpty =
     (if \<not> empty object then
        (if After (clk i) (ExpiresAt object)
         then (case clean_loop clk (i + 1) rest (expired @ [object]) nearestExp firstNonEmpty of
                 (rest', r) \<Rightarrow> (object\<lparr>empty := True\<rparr> # rest', r))
         else (let n1 = (if firstNonEmpty then ExpiresAt object else nearestExp);
                   n2 = (if After n1 (ExpiresAt object) then ExpiresAt object else n1)
               in case clean_loop clk (i + 1) rest expired n2 False of
                    (rest', r) \<Rightarrow> (object # rest', r)))
      else (case clean_loop clk (i + 1) rest expired nearestExp firstNonEmpty of
              (rest', r) \<Rightarrow> (object # rest', r)))"

definition clean :: "(nat \<Rightarrow> Time) \<Rightarrow> 'a Cache \<Rightarrow> 'a Slot list \<times> 'a Cache" where
  "clean clk t =
     (case clean_loop clk 0 (slots t) [] zeroTime True of
        (slots', expired, nearestExp, _) \<Rightarrow> (expired, t\<lparr>slots := slots', nextExp := nearestExp\<rparr>))"

text \<open>One wake-up of the janitor goroutine: \<open>now\<close> is the clock reading compared with
  \<^verbatim>\<open>nextExp\<close>; the result lists the items handed to \<^verbatim>\<open>OnExpires\<close>, in order. Calling a nil
  \<^verbatim>\<open>OnExpires\<close> for the first expired item panics, after the sweep itself is done.\<close>

definition janitor :: "Time \<Rightarrow> (nat \<Rightarrow> Time) \<Rightarrow> 'a Cache \<Rightarrow> (error + 'a list) \<times> 'a Cache" where
  "janitor now clk t =
     (if After now (nextExp t)
      then (case clean clk t of
              (expired, t') \<Rightarrow>
                if expired = [] then (Inr [], t')
                else if OnExpires (config t') then (Inr (map Item expired), t')
                else (Inl PanicNilFunc, t'))
      else (Inr [], t))"

text \<open>\<^verbatim>\<open>extend\<close> is named \<open>extend_key\<close> here: every record has an \<open>extend\<close> of its own.
  An index read from \<^verbatim>\<open>keys\<close> that is out of range makes the Go code panic.\<close>

definition delete :: "uint64 \<Rightarrow> 'a Cache \<Rightarrow> error option \<times> 'a Cache" where
  "delete key t =
     (case keys t key of
        None \<Rightarrow> (Some ErrDNE, t)
      | Some idx \<Rightarrow>
          if idx < length (slots t)
          then (None, t\<lparr>slots := (slots t)[idx := (slots t ! idx)\<lparr>empty := True\<rparr>],
                        keys := (keys t)(key := None)\<rparr>)
          else (Some PanicIndexOutOfRange, t))"

definition extend_key :: "uint64 \<Rightarrow> Duration \<Rightarrow> 'a Cache \<Rightarrow> error option \<times> 'a Cache" where
  "extend_key key d t =
     (case keys t key of
        None \<Rightarrow> (Some ErrDNE, t)
      | Some idx \<Rightarrow>
          if idx < length (slots t)
          then (let e = Time_Add (ExpiresAt (slots t ! idx)) d;
                    slots' = (slots t)[idx := (slots t ! idx)\<lparr>ExpiresAt := e\<rparr>]
                in (None, t\<lparr>slots := slots',
                              nextExp := (if After (nextExp t) e then e else nextExp t)\<rparr>))
          else (Some PanicIndexOutOfRange, t))"

definition get :: "uint64 \<Rightarrow> 'a Cache \<Rightarrow> (error + 'a) \<times> 'a Cache" where
  "get key t =
     (case keys t key of
        None \<Rightarrow> (Inl ErrDNE, t)
      | Some idx \<Rightarrow>
          if idx < length (slots t)
          then (let item = slots t ! idx in
                if empty item then (Inl ErrDNE, t\<lparr>keys := (keys t)(key := None)\<rparr>)
                else if Refresh (config t)
                then (case extend_key key (RefreshDuration (config t)) t of
                        (Some err, t') \<Rightarrow> (Inl err, t')
                      | (None, t') \<Rightarrow> (Inr (Item item), t'))
                else (Inr (Item item), t))
          else (Inl PanicIndexOutOfRange, t))"

definition update :: "uint64 \<Rightarrow> 'a \<Rightarrow> 'a Cache \<Rightarrow> error option \<times> 'a Cache" where
  "update key item t =
     (case keys t key of
        None \<Rightarrow> (Some ErrDNE, t)
      | Some idx \<Rightarrow>
          if idx < length (slots t)
          then (None, t\<lparr>slots := (slots t)[idx := (slots t ! idx)\<lparr>Item := item\<rparr>]\<rparr>)
          else (Some PanicIndexOutOfRange, t))"

subsection \<open>The public operations of the store\<close>

text \<open>\<open>now\<close> is the reading of \<^verbatim>\<open>time.Now().UTC()\<close> inside \<^verbatim>\<open>Add\<close>.\<close>

definition Cache_Add :: "string \<Rightarrow> 'a \<Rightarrow> Duration \<Rightarrow> Time \<Rightarrow> 'a Cache \<Rightarrow> error option \<times> 'a Cache" where
  "Cache_Add key item expiresIn now t =
     (let hashedKey = fnv64a key;
          expiresAt = (if expiresIn = 0 then Unix MaxInt64 0 else Time_Add now expiresIn)
      in add hashedKey item expiresAt t)"

definition Cache_Delete :: "string \<Rightarrow> 'a Cache \<Rightarrow> error option \<times> 'a Cache" where
  "Cache_Delete key t = delete (fnv64a key) t"

definition Cache_Extend :: "string \<Rightarrow> Duration \<Rightarrow> 'a Cache \<Rightarrow> error option \<times> 'a Cache" where
  "Cache_Extend key d t = extend_key (fnv64a key) d t"

definition Cache_Get :: "string \<Rightarrow> 'a Cache \<Rightarrow> (error + 'a) \<times> 'a Cache" where
  "Cache_Get key t = get (fnv64a key) t"

definition Cache_Update :: "string \<Rightarrow> 'a \<Rightarrow> 'a Cache \<Rightarrow> error option \<times> 'a Cache" where
  "Cache_Update key item t = update (fnv64a key) item t"

section \<open>Buckets\<close>

text \<open>A bucket holds its name and its membership list; the store it points to is passed
  along with it. \<open>pk\<close> and \<open>hk\<close> are the composite key and its fingerprint that every
  bucket operation computes first.\<close>

record Bucket =
  name :: string
  list_b :: "uint64 list"

definition pk :: "string \<Rightarrow> string \<Rightarrow> string" where
  "pk bname key = bname @ ''-'' @ key"

definition hk :: "string \<Rightarrow> string \<Rightarrow> uint64" where
  "hk bname key = fnv64a (pk bname key)"

text \<open>The membership test of \<^verbatim>\<open>Bucket.Add\<close> and the removal of the first match of
  \<^verbatim>\<open>Bucket.Delete\<close>.\<close>

fun exists_loop :: "uint64 list \<Rightarrow> uint64 \<Rightarrow> bool" where
  "exists_loop [] h = False"
| "exists_loop (k # ks) h = (if k = h then True else exists_loop ks h)"

fun remove_loop :: "uint64 list \<Rightarrow> uint64 \<Rightarrow> uint64 list" where
  "remove_loop [] h = []"
| "remove_loop (k # ks) h = (if k = h then ks else k # remove_loop ks h)"

definition Bucket_Add ::
  "string \<Rightarrow> 'a \<Rightarrow> Duration \<Rightarrow> Time \<Rightarrow> Bucket \<Rightarrow> 'a Cache \<Rightarrow> error option \<times> Bucket \<times> 'a Cache" where
  "Bucket_Add key item expiresIn now b t =
     (let h = hk (name b) key;
          b' = (if \<not> exists_loop (list_b b) h then b\<lparr>list_b := list_b b @ [h]\<rparr> else b);
          expiresAt = Time_Add now expiresIn
      in case add h item expiresAt t of (err, t') \<Rightarrow> (err, b', t'))"

definition Bucket_Delete :: "string \<Rightarrow> Bucket \<Rightarrow> 'a Cache \<Rightarrow> error option \<times> Bucket \<times> 'a Cache" where
  "Bucket_Delete key b t =
     (let h = hk (name b) key;
          b' = b\<lparr>list_b := remove_loop (list_b b) h\<rparr>
      in case delete h t of (err, t') \<Rightarrow> (err, b', t'))"

definition Bucket_Get :: "string \<Rightarrow> Bucket \<Rightarrow> 'a Cache \<Rightarrow> (error + 'a) \<times> 'a Cache" where
  "Bucket_Get key b t = get (hk (name b) key) t"

definition Bucket_Extend :: "string \<Rightarrow> Duration \<Rightarrow> Bucket \<Rightarrow> 'a Cache \<Rightarrow> error option \<times> 'a Cache" where
  "Bucket_Extend key d b t = extend_key (hk (name b) key) d t"

definition Bucket_Update :: "string \<Rightarrow> 'a \<Rightarrow> Bucket \<Rightarrow> 'a Cache \<Rightarrow> error option \<times> 'a Cache" where
  "Bucket_Update key item b t = update (hk (name b) key) item t"

definition Len :: "Bucket \<Rightarrow> nat" where
  "Len b = length (list_b b)"

subsection \<open>The bucket iterator\<close>

text \<open>The iterator's \<^verbatim>\<open>item\<close> is an interface value: \<open>None\<close> is nil. Its bucket is passed
  along with it.\<close>

record 'a bucketIterator =
  it_key :: uint64
  it_item :: "'a option"
  it_position :: nat

definition Iterator :: "'a bucketIterator" where
  "Iterator = \<lparr>it_key = 0, it_item = None, it_position = 0\<rparr>"

definition Item_it :: "'a bucketIterator \<Rightarrow> 'a option" where
  "Item_it it = it_item it"

text \<open>\<^verbatim>\<open>Next\<close> drops the error of \<^verbatim>\<open>get\<close>; only a run-time panic inside \<^verbatim>\<open>get\<close> is not
  swallowed by the blank identifier.\<close>

definition Next ::
  "'a bucketIterator \<Rightarrow> Bucket \<Rightarrow> 'a Cache \<Rightarrow> (error + bool) \<times> 'a bucketIterator \<times> 'a Cache" where
  "Next it b t =
     (if it_position it < length (list_b b) then
        (let key = list_b b ! it_position it in
         case get key t of
           (Inl PanicIndexOutOfRange, t') \<Rightarrow> (Inl PanicIndexOutOfRange, it, t')
         | (Inl _, t') \<Rightarrow>
             (Inr True, it\<lparr>it_key := key, it_item := None, it_position := it_position it + 1\<rparr>, t')
         | (Inr v, t') \<Rightarrow>
             (Inr True, it\<lparr>it_key := key, it_item := Some v, it_position := it_position it + 1\<rparr>, t'))
      else (Inr False, it, t))"

definition Update_it :: "'a \<Rightarrow> 'a bucketIterator \<Rightarrow> 'a Cache \<Rightarrow> error option \<times> 'a Cache" where
  "Update_it item it t = update (it_key it) item t"

text \<open>The loop \<^verbatim>\<open>for iter.Next() { ... iter.Item() ... }\<close> over an unchanging bucket: the
  key and item the iterator holds after each successful \<^verbatim>\<open>Next\<close>, then the result of the
  last call of \<^verbatim>\<open>Next\<close> and the final iterator and store.\<close>

function iterate ::
  "'a bucketIterator \<Rightarrow> Bucket \<Rightarrow> 'a Cache
     \<Rightarrow> (uint64 \<times> 'a option) list \<times> (error + bool) \<times> 'a bucketIterator \<times> 'a Cache" where
  "iterate it b t =
     (case Next it b t of
        (Inr True, it', t') \<Rightarrow>
          (case iterate it' b t' of (vs, r) \<Rightarrow> ((it_key it', Item_it it') # vs, r))
      | (r, it', t') \<Rightarrow> ([], r, it', t'))"
  by pat_completeness auto
termination
  by (relation "measure (\<lambda>(it, b, t). length (list_b b) - it_position it)")
     (auto simp: Next_def Let_def split: if_splits prod.splits sum.splits error.splits)

declare iterate.simps [simp del]

text \<open>What \<^verbatim>\<open>item, _ := get(key)\<close> leaves in \<^verbatim>\<open>item\<close>, and the values a sequence of lookups
  yields, each lookup acting on the store the one before it left: the specification of the
  iteration.\<close>

definition value_or_nil :: "error + 'a \<Rightarrow> 'a option" where
  "value_or_nil r = (case r of Inl _ \<Rightarrow> None | Inr v \<Rightarrow> Some v)"

fun resolve_all :: "uint64 list \<Rightarrow> 'a Cache \<Rightarrow> (uint64 \<times> 'a option) list" where
  "resolve_all [] t = []"
| "resolve_all (k # ks) t = (k, value_or_nil (fst (get k t))) # resolve_all ks (snd (get k t))"

section \<open>Reachable states of the store\<close>

text \<open>The states a store takes from \<^verbatim>\<open>NewCache\<close> on, under the operations of the store, of
  its buckets and iterators, and the wake-ups and sweeps of the janitor, with any arguments
  and any clock readings. (The state a panic leaves behind counts as reachable too.)\<close>

inductive reachable :: "'a Cache \<Rightarrow> bool" where
  r_New: "reachable (NewCache cfg)"
| r_Add: "reachable t \<Longrightarrow> reachable (snd (Cache_Add key item expiresIn now t))"
| r_Get: "reachable t \<Longrightarrow> reachable (snd (Cache_Get key t))"
| r_Update: "reachable t \<Longrightarrow> reachable (snd (Cache_Update key item t))"
| r_Extend: "reachable t \<Longrightarrow> reachable (snd (Cache_Extend key d t))"
| r_Delete: "reachable t \<Longrightarrow> reachable (snd (Cache_Delete key t))"
| r_janitor: "reachable t \<Longrightarrow> reachable (snd (janitor now clk t))"
| r_clean: "reachable t \<Longrightarrow> reachable (snd (clean clk t))"
| r_Bucket_Add: "reachable t \<Longrightarrow> reachable (snd (snd (Bucket_Add key item expiresIn now b t)))"
| r_Bucket_Get: "reachable t \<Longrightarrow> reachable (snd (Bucket_Get key b t))"
| r_Bucket_Update: "reachable t \<Longrightarrow> reachable (snd (Bucket_Update key item b t))"
| r_Bucket_Extend: "reachable t \<Longrightarrow> reachable (snd (Bucket_Extend key d b t))"
| r_Bucket_Delete: "reachable t \<Longrightarrow> reachable (snd (snd (Bucket_Delete key b t)))"
| r_Next: "reachable t \<Longrightarrow> reachable (snd (snd (Next it b t)))"
| r_Update_it: "reachable t \<Longrightarrow> reachable (snd (Update_it item it t))"

text \<open>Every index stored in \<^verbatim>\<open>keys\<close> is a position of \<^verbatim>\<open>slots\<close>.\<close>

definition index_in_range :: "'a Cache \<Rightarrow> bool" where
  "index_in_range t = (\<forall>key idx. keys t key = Some idx \<longrightarrow> idx < length (slots t))"

text \<open>\<^verbatim>\<open>nextExp\<close> is not after the expiration of any slot that is not tombstoned.\<close>

definition nextExp_lower_bound :: "'a Cache \<Rightarrow> bool" where
  "nextExp_lower_bound t =
     (\<forall>i < length (slots t). \<not> empty (slots t ! i) \<longrightarrow> \<not> After (nextExp t) (ExpiresAt (slots t ! i)))"

text \<open>What the reuse loop of \<^verbatim>\<open>add\<close> and the append after it leave in \<^verbatim>\<open>slots\<close>.\<close>

definition reuse :: "'a Slot \<Rightarrow> 'a Slot list \<Rightarrow> 'a Slot list" where
  "reuse ts cs = (if \<exists>c \<in> set cs. empty c then map (\<lambda>c. if empty c then ts else c) cs else cs @ [ts])"

section \<open>Concrete stores\<close>

text \<open>A clock that reads the same time at every slot of a sweep.\<close>

definition fixed_clock :: "Time \<Rightarrow> nat \<Rightarrow> Time" where
  "fixed_clock now i = now"

text \<open>A configuration that sets only the callback.\<close>

definition config_cb :: CacheConfig where
  "config_cb = \<lparr>OnExpires = True, Refresh = False, RefreshDuration = 0, CleanDuration = 0\<rparr>"

text \<open>A store of that configuration after \<^verbatim>\<open>Add("k", 7, time.Second)\<close> at Unix time
  1700000000, and the same store after the janitor woke up 100 seconds later.\<close>

definition store_added :: "nat Cache" where
  "store_added = snd (Cache_Add ''k'' 7 Second (Unix 1700000000 0) (NewCache (Some config_cb)))"

definition store_swept :: "nat Cache" where
  "store_swept = snd (janitor (Unix 1700000100 0) (fixed_clock (Unix 1700000100 0)) store_added)"

text \<open>\<open>store_added\<close> after \<^verbatim>\<open>Extend("k", 10 * time.Second)\<close>.\<close>

definition store_extended :: "nat Cache" where
  "store_extended = snd (Cache_Extend ''k'' (10 * Second) store_added)"

text \<open>A store after \<^verbatim>\<open>Add("k", 7, 0)\<close>, and a store in which two entries were added and
  then deleted.\<close>

definition store_never :: "nat Cache" where
  "store_never = snd (Cache_Add ''k'' 7 0 (Unix 1700000000 0) (NewCache (Some config_cb)))"

definition store_two_tombstones :: "nat Cache" where
  "store_two_tombstones =
     snd (Cache_Delete ''b'' (snd (Cache_Delete ''a''
       (snd (Cache_Add ''b'' 2 Second (Unix 1700000000 0)
         (snd (Cache_Add ''a'' 1 Second (Unix 1700000000 0) (NewCache (Some config_cb)))))))))"

text \<open>An empty bucket named \<open>''b''\<close>.\<close>

definition bucket_b :: Bucket where
  "bucket_b = \<lparr>name = ''b'', list_b = []\<rparr>"

text \<open>The bucket \<open>''b''\<close> and its store after \<^verbatim>\<open>Add("x", 1, time.Second)\<close> and
  \<^verbatim>\<open>Add("y", 2, 1000 * time.Second)\<close> at Unix time 1700000000 and a wake-up of the janitor
  100 seconds later.\<close>

definition bucket_xy :: Bucket where
  "bucket_xy = fst (snd (Bucket_Add ''y'' (2::nat) (1000 * Second) (Unix 1700000000 0)
       (fst (snd (Bucket_Add ''x'' (1::nat) Second (Unix 1700000000 0) bucket_b (NewCache (Some config_cb)))))
       (snd (snd (Bucket_Add ''x'' (1::nat) Second (Unix 1700000000 0) bucket_b (NewCache (Some config_cb)))))))"

definition store_xy :: "nat Cache" where
  "store_xy = snd (janitor (Unix 1700000100 0) (fixed_clock (Unix 1700000100 0))
     (snd (snd (Bucket_Add ''y'' 2 (1000 * Second) (Unix 1700000000 0)
       (fst (snd (Bucket_Add ''x'' (1::nat) Second (Unix 1700000000 0) bucket_b (NewCache (Some config_cb)))))
       (snd (snd (Bucket_Add ''x'' 1 Second (Unix 1700000000 0) bucket_b (NewCache (Some config_cb)))))))))"

section \<open>Lemmas on the sweep and the slot reuse\<close>

lemma add_loop_slots: "fst (add_loop ts i cs fit idx) = map (\<lambda>c. if empty c then ts else c) cs"
  by (induction cs arbitrary: i fit idx) (simp_all add: case_prod_beta)

lemma add_loop_fit: "fst (snd (add_loop ts i cs fit idx)) = (fit \<or> (\<exists>c \<in> set cs. empty c))"
  by (induction cs arbitrary: i fit idx) (auto simp add: case_prod_beta)

lemma add_loop_idx_none:
  "\<forall>c \<in> set cs. \<not> empty c \<Longrightarrow> snd (snd (add_loop ts i cs fit idx)) = idx"
  by (induction cs arbitrary: i fit idx) (simp_all add: case_prod_beta)

lemma add_loop_idx:
  "\<exists>c \<in> set cs. empty c \<Longrightarrow>
     i \<le> snd (snd (add_loop ts i cs fit idx)) \<and> snd (snd (add_loop ts i cs fit idx)) < i + length cs
     \<and> empty (cs ! (snd (snd (add_loop ts i cs fit idx)) - i))"
proof (induction cs arbitrary: i fit idx)
  case Nil
  then show ?case by simp
next
  case (Cons c cs)
  show ?case
  proof (cases "\<exists>c \<in> set cs. empty c")
    case True
    define j where "j = snd (snd (add_loop ts (Suc i) cs (if empty c then True else fit) (if empty c then i else idx)))"
    from Cons.IH [OF True, of "Suc i" "if empty c then True else fit" "if empty c then i else idx"]
    have j: "Suc i \<le> j" "j < Suc i + length cs" "empty (cs ! (j - Suc i))"
      by (simp_all add: j_def)
    have eq: "snd (snd (add_loop ts i (c # cs) fit idx)) = j"
      by (simp add: j_def case_prod_beta)
    from j(1) have "j - i = Suc (j - Suc i)" by simp
    with j show ?thesis unfolding eq by simp
  next
    case False
    then have no: "snd (snd (add_loop ts j cs f x)) = x" for j f x
      by (simp add: add_loop_idx_none)
    from Cons.prems False have "empty c" by auto
    then show ?thesis using no by (simp add: case_prod_beta)
  qed
qed

lemma sint_inj: "sint (a :: 'a::len word) = sint b \<Longrightarrow> a = b"
  by (rule signed_word_eqI)

lemma After_alt:
  "After t u \<longleftrightarrow> sint (ext u) < sint (ext t) \<or> (sint (ext t) = sint (ext u) \<and> sint (nsec u) < sint (nsec t))"
  unfolding After_def using sint_inj [of "ext t" "ext u"] by auto

lemma After_irrefl: "\<not> After t t"
  by (simp add: After_def)

lemma After_trans: "After a b \<Longrightarrow> After b c \<Longrightarrow> After a c"
  unfolding After_alt by linarith

lemma not_After_trans: "\<not> After a b \<Longrightarrow> \<not> After b c \<Longrightarrow> \<not> After a c"
  unfolding After_alt by linarith

lemma After_not_After: "After a b \<Longrightarrow> \<not> After a c \<Longrightarrow> \<not> After b c"
  unfolding After_alt by linarith

lemma clean_loop_slots:
  "fst (clean_loop clk i cs ex n f) =
     map (\<lambda>(j, c). if \<not> empty c \<and> After (clk j) (ExpiresAt c) then c\<lparr>empty := True\<rparr> else c)
       (zip [i ..< i + length cs] cs)"
proof (induction cs arbitrary: i ex n f)
  case Nil
  then show ?case by simp
next
  case (Cons c cs)
  have up: "[i ..< i + length (c # cs)] = i # [Suc i ..< Suc i + length cs]"
    by (simp add: upt_rec)
  show ?case unfolding up using Cons.IH [of "Suc i"]
    by (simp add: case_prod_beta Let_def)
qed

lemma After_asym: "After a b \<Longrightarrow> \<not> After b a"
  unfolding After_alt by linarith

lemma clean_loop_step:
  "\<not> empty c \<Longrightarrow> \<not> After (clk i) (ExpiresAt c) \<Longrightarrow>
   n2 = (let n1 = (if f then ExpiresAt c else n) in if After n1 (ExpiresAt c) then ExpiresAt c else n1) \<Longrightarrow>
   clean_loop clk i (c # cs) ex n f =
     (c # fst (clean_loop clk (Suc i) cs ex n2 False), snd (clean_loop clk (Suc i) cs ex n2 False))"
  by (simp add: case_prod_beta Let_def)

lemma clean_loop_mono:
  "\<not> f \<Longrightarrow> \<not> snd (snd (snd (clean_loop clk i cs ex n f)))
            \<and> \<not> After (fst (snd (snd (clean_loop clk i cs ex n f)))) n"
proof (induction cs arbitrary: i ex n f)
  case Nil
  then show ?case by (simp add: After_irrefl)
next
  case (Cons c cs)
  show ?case
  proof (cases "\<not> empty c \<and> \<not> After (clk i) (ExpiresAt c)")
    case False
    with Cons.IH [OF Cons.prems, of "Suc i" _ n] show ?thesis
      by (auto simp add: case_prod_beta)
  next
    case True
    define n2 where "n2 = (if After n (ExpiresAt c) then ExpiresAt c else n)"
    have b: "\<not> After n2 n"
      by (auto simp: n2_def After_irrefl dest: After_asym)
    have eq: "clean_loop clk i (c # cs) ex n f =
        (c # fst (clean_loop clk (Suc i) cs ex n2 False), snd (clean_loop clk (Suc i) cs ex n2 False))"
      using True Cons.prems by (intro clean_loop_step) (simp_all add: n2_def)
    have "\<not> snd (snd (snd (clean_loop clk (Suc i) cs ex n2 False)))
            \<and> \<not> After (fst (snd (snd (clean_loop clk (Suc i) cs ex n2 False)))) n2"
      by (rule Cons.IH) simp
    with b show ?thesis unfolding eq by (auto dest: not_After_trans)
  qed
qed

lemma clean_loop_bound:
  "c \<in> set (fst (clean_loop clk i cs ex n f)) \<Longrightarrow> \<not> empty c \<Longrightarrow>
     \<not> After (fst (snd (snd (clean_loop clk i cs ex n f)))) (ExpiresAt c)"
proof (induction cs arbitrary: i ex n f)
  case Nil
  then show ?case by simp
next
  case (Cons a cs)
  show ?case
  proof (cases "\<not> empty a \<and> \<not> After (clk i) (ExpiresAt a)")
    case False
    show ?thesis
    proof (cases "empty a")
      case True
      with Cons.prems have "c \<in> set (fst (clean_loop clk (Suc i) cs ex n f))"
        by (auto simp: case_prod_beta)
      from Cons.IH [OF this Cons.prems(2)] True show ?thesis
        by (simp add: case_prod_beta)
    next
      case ne: False
      with False have exp: "After (clk i) (ExpiresAt a)" by simp
      with ne Cons.prems have "c \<in> set (fst (clean_loop clk (Suc i) cs (ex @ [a]) n f))"
        by (auto simp: case_prod_beta)
      from Cons.IH [OF this Cons.prems(2)] ne exp show ?thesis
        by (simp add: case_prod_beta)
    qed
  next
    case True
    define n2 where "n2 = (let n1 = (if f then ExpiresAt a else n) in if After n1 (ExpiresAt a) then ExpiresAt a else n1)"
    have a: "\<not> After n2 (ExpiresAt a)"
      by (simp add: n2_def Let_def After_irrefl)
    have eq: "clean_loop clk i (a # cs) ex n f =
        (a # fst (clean_loop clk (Suc i) cs ex n2 False), snd (clean_loop clk (Suc i) cs ex n2 False))"
      using True by (intro clean_loop_step) (simp_all add: n2_def)
    have m: "\<not> After (fst (snd (snd (clean_loop clk (Suc i) cs ex n2 False)))) n2"
      using clean_loop_mono [of False clk "Suc i" cs ex n2] by simp
    from Cons.prems(1) have "c = a \<or> c \<in> set (fst (clean_loop clk (Suc i) cs ex n2 False))"
      unfolding eq by simp
    then show ?thesis
    proof
      assume "c = a"
      with m a show ?thesis unfolding eq by (auto dest: not_After_trans)
    next
      assume "c \<in> set (fst (clean_loop clk (Suc i) cs ex n2 False))"
      from Cons.IH [OF this Cons.prems(2)] show ?thesis unfolding eq by simp
    qed
  qed
qed



lemma add_Collision: "keys t key = Some i \<Longrightarrow> add key item e t = (Some ErrCollision, t)"
  by (simp add: add_def)

lemma map_no_empty: "\<forall>c \<in> set cs. \<not> empty c \<Longrightarrow> map (\<lambda>c. if empty c then ts else c) cs = cs"
  by (induction cs) simp_all

lemma add_fst: "keys t key = None \<Longrightarrow> fst (add key item e t) = None"
  by (simp add: add_def Let_def case_prod_beta)

lemma add_slots:
  "keys t key = None \<Longrightarrow>
     slots (snd (add key item e t)) = reuse \<lparr>Item = item, ExpiresAt = e, empty = False\<rparr> (slots t)"
  by (simp add: add_def Let_def case_prod_beta add_loop_fit add_loop_slots reuse_def map_no_empty)

lemma add_config: "config (snd (add key item e t)) = config t"
  by (simp add: add_def Let_def case_prod_beta split: option.splits)

lemma add_nextExp:
  "keys t key = None \<Longrightarrow>
     nextExp (snd (add key item e t)) =
       (if After (nextExp t) e \<or> length (slots (snd (add key item e t))) = 1 then e else nextExp t)"
  by (simp add: add_def Let_def case_prod_beta)

lemma add_keys:
  assumes "keys t key = None"
  shows "\<exists>idx. keys (snd (add key item e t)) = (keys t)(key \<mapsto> idx)
           \<and> idx < length (slots (snd (add key item e t)))
           \<and> slots (snd (add key item e t)) ! idx = \<lparr>Item = item, ExpiresAt = e, empty = False\<rparr>"
proof (cases "\<exists>c \<in> set (slots t). empty c")
  case True
  define ts where "ts = \<lparr>Item = item, ExpiresAt = e, empty = False\<rparr>"
  define j where "j = snd (snd (add_loop ts 0 (slots t) False 0))"
  from add_loop_idx [OF True, of 0 ts False 0]
  have j: "j < length (slots t)" "empty (slots t ! j)"
    by (simp_all add: j_def)
  have k: "keys (snd (add key item e t)) = (keys t)(key \<mapsto> j)"
    using assms True by (simp add: add_def Let_def case_prod_beta add_loop_fit j_def ts_def)
  have s: "slots (snd (add key item e t)) = map (\<lambda>c. if empty c then ts else c) (slots t)"
    using assms True by (simp add: add_slots reuse_def ts_def)
  show ?thesis using j k s by (auto simp: ts_def)
next
  case False
  have k: "keys (snd (add key item e t)) = (keys t)(key \<mapsto> length (slots t))"
    using assms False by (simp add: add_def Let_def case_prod_beta add_loop_fit add_loop_slots map_no_empty)
  have s: "slots (snd (add key item e t)) = slots t @ [\<lparr>Item = item, ExpiresAt = e, empty = False\<rparr>]"
    using assms False by (simp add: add_slots reuse_def)
  show ?thesis unfolding k s by (intro exI [of _ "length (slots t)"]) simp
qed

lemma length_reuse: "length cs \<le> length (reuse ts cs)"
  by (simp add: reuse_def)

lemma reuse_nth:
  "i < length (reuse ts cs) \<Longrightarrow> reuse ts cs ! i = ts \<or> (i < length cs \<and> \<not> empty (cs ! i) \<and> reuse ts cs ! i = cs ! i)"
proof (cases "\<exists>c \<in> set cs. empty c")
  case True
  assume "i < length (reuse ts cs)"
  with True have "i < length cs" by (simp add: reuse_def)
  with True show ?thesis by (simp add: reuse_def)
next
  case False
  assume "i < length (reuse ts cs)"
  with False show ?thesis by (auto simp: reuse_def nth_append less_Suc_eq)
qed

lemma add_index_in_range: "index_in_range t \<Longrightarrow> index_in_range (snd (add key item e t))"
proof (cases "keys t key")
  case None
  assume a: "index_in_range t"
  from add_keys [OF None, of item e] obtain idx where
    k: "keys (snd (add key item e t)) = (keys t)(key \<mapsto> idx)"
    and i: "idx < length (slots (snd (add key item e t)))" by blast
  have le: "length (slots t) \<le> length (slots (snd (add key item e t)))"
    by (simp add: add_slots [OF None] length_reuse)
  show ?thesis unfolding index_in_range_def k
  proof (intro allI impI)
    fix key' idx' assume h: "((keys t)(key \<mapsto> idx)) key' = Some idx'"
    show "idx' < length (slots (snd (add key item e t)))"
    proof (cases "key' = key")
      case True
      with h i show ?thesis by simp
    next
      case False
      with h a have "idx' < length (slots t)" by (simp add: index_in_range_def)
      with le show ?thesis by simp
    qed
  qed
next
  case (Some i)
  assume "index_in_range t"
  then show ?thesis by (simp add: add_Collision [OF Some])
qed

lemma add_nextExp_lower_bound:
  assumes "nextExp_lower_bound t"
  shows "nextExp_lower_bound (snd (add key item e t))"
proof (cases "keys t key")
  case (Some i)
  with assms show ?thesis by (simp add: add_Collision [OF Some])
next
  case None
  define ts where "ts = \<lparr>Item = item, ExpiresAt = e, empty = False\<rparr>"
  define t' where "t' = snd (add key item e t)"
  have s: "slots t' = reuse ts (slots t)"
    by (simp add: t'_def ts_def add_slots [OF None])
  have n: "nextExp t' = (if After (nextExp t) e \<or> length (slots t') = 1 then e else nextExp t)"
    by (simp add: t'_def add_nextExp [OF None])
  from add_keys [OF None, of item e] obtain idx where
    idx: "idx < length (slots t')" "slots t' ! idx = ts"
    by (auto simp: t'_def ts_def)
  have "\<not> After (nextExp t') (ExpiresAt (slots t' ! i))" if i: "i < length (slots t')" "\<not> empty (slots t' ! i)" for i
  proof (cases "slots t' ! i = ts")
    case True
    then show ?thesis by (simp add: n ts_def After_irrefl)
  next
    case False
    with reuse_nth [of i ts "slots t"] i s
    have old: "i < length (slots t)" "\<not> empty (slots t ! i)" "slots t' ! i = slots t ! i"
      by auto
    with assms have b: "\<not> After (nextExp t) (ExpiresAt (slots t ! i))"
      by (simp add: nextExp_lower_bound_def)
    have "length (slots t') \<noteq> 1"
    proof
      assume "length (slots t') = 1"
      with idx i have "i = idx" by simp
      with idx False show False by simp
    qed
    then show ?thesis using b old n by (auto dest: After_not_After)
  qed
  then show ?thesis by (simp add: nextExp_lower_bound_def t'_def)
qed


lemma delete_index_in_range: "index_in_range t \<Longrightarrow> index_in_range (snd (delete key t))"
  by (auto simp: index_in_range_def delete_def split: option.splits if_splits)

lemma delete_nextExp_lower_bound:
  "nextExp_lower_bound t \<Longrightarrow> nextExp_lower_bound (snd (delete key t))"
  by (auto simp: nextExp_lower_bound_def delete_def nth_list_update split: option.splits if_splits)

lemma update_index_in_range: "index_in_range t \<Longrightarrow> index_in_range (snd (update key item t))"
  by (auto simp: index_in_range_def update_def split: option.splits if_splits)

lemma update_nextExp_lower_bound:
  "nextExp_lower_bound t \<Longrightarrow> nextExp_lower_bound (snd (update key item t))"
  by (auto simp: nextExp_lower_bound_def update_def nth_list_update split: option.splits if_splits)

lemma extend_key_index_in_range: "index_in_range t \<Longrightarrow> index_in_range (snd (extend_key key d t))"
  by (auto simp: index_in_range_def extend_key_def Let_def split: option.splits if_splits)

lemma extend_key_nextExp_lower_bound:
  assumes "nextExp_lower_bound t"
  shows "nextExp_lower_bound (snd (extend_key key d t))"
proof (cases "keys t key")
  case None
  with assms show ?thesis by (simp add: extend_key_def)
next
  case (Some idx)
  show ?thesis
  proof (cases "idx < length (slots t)")
    case False
    with Some assms show ?thesis by (simp add: extend_key_def)
  next
    case True
    define e where "e = Time_Add (ExpiresAt (slots t ! idx)) d"
    define n where "n = (if After (nextExp t) e then e else nextExp t)"
    have eq: "snd (extend_key key d t) =
        t\<lparr>slots := (slots t)[idx := (slots t ! idx)\<lparr>ExpiresAt := e\<rparr>], nextExp := n\<rparr>"
      using Some True by (simp add: extend_key_def Let_def e_def n_def)
    have ne: "\<not> After n e" by (simp add: n_def After_irrefl)
    have old: "\<not> After n (ExpiresAt (slots t ! i))"
      if "i < length (slots t)" "\<not> empty (slots t ! i)" for i
    proof -
      from assms that have "\<not> After (nextExp t) (ExpiresAt (slots t ! i))"
        by (simp add: nextExp_lower_bound_def)
      then show ?thesis by (auto simp: n_def dest: After_not_After)
    qed
    have "\<not> After n (ExpiresAt ((slots t)[idx := (slots t ! idx)\<lparr>ExpiresAt := e\<rparr>] ! i))"
      if i: "i < length (slots t)" "\<not> empty ((slots t)[idx := (slots t ! idx)\<lparr>ExpiresAt := e\<rparr>] ! i)" for i
    proof (cases "i = idx")
      case True
      with i ne show ?thesis by simp
    next
      case False
      with i old [of i] show ?thesis by simp
    qed
    then show ?thesis
      unfolding eq by (simp add: nextExp_lower_bound_def)
  qed
qed

lemma get_cases:
  "snd (get key t) = t \<or> snd (get key t) = t\<lparr>keys := (keys t)(key := None)\<rparr>
     \<or> snd (get key t) = snd (extend_key key (RefreshDuration (config t)) t)"
  by (auto simp: get_def Let_def split: option.splits prod.splits)

lemma drop_key_index_in_range:
  "index_in_range t \<Longrightarrow> index_in_range (t\<lparr>keys := (keys t)(key := None)\<rparr>)"
  by (auto simp: index_in_range_def)

lemma drop_key_nextExp_lower_bound:
  "nextExp_lower_bound t \<Longrightarrow> nextExp_lower_bound (t\<lparr>keys := (keys t)(key := None)\<rparr>)"
  by (auto simp: nextExp_lower_bound_def)

lemma get_index_in_range: "index_in_range t \<Longrightarrow> index_in_range (snd (get key t))"
  using get_cases [of key t]
  by (auto simp: drop_key_index_in_range extend_key_index_in_range)

lemma get_nextExp_lower_bound: "nextExp_lower_bound t \<Longrightarrow> nextExp_lower_bound (snd (get key t))"
  using get_cases [of key t]
  by (auto simp: drop_key_nextExp_lower_bound extend_key_nextExp_lower_bound)

lemma clean_loop_length: "length (fst (clean_loop clk i cs ex n f)) = length cs"
  by (simp add: clean_loop_slots)

lemma clean_keys: "keys (snd (clean clk t)) = keys t"
  by (simp add: clean_def case_prod_beta)

lemma clean_index_in_range: "index_in_range t \<Longrightarrow> index_in_range (snd (clean clk t))"
  by (simp add: index_in_range_def clean_def case_prod_beta clean_loop_length)

lemma clean_nextExp_lower_bound: "nextExp_lower_bound (snd (clean clk t))"
  unfolding nextExp_lower_bound_def clean_def
  by (simp add: case_prod_beta clean_loop_bound)

lemma janitor_index_in_range: "index_in_range t \<Longrightarrow> index_in_range (snd (janitor now clk t))"
  by (simp add: janitor_def case_prod_beta clean_index_in_range)

lemma janitor_nextExp_lower_bound:
  "nextExp_lower_bound t \<Longrightarrow> nextExp_lower_bound (snd (janitor now clk t))"
  by (simp add: janitor_def case_prod_beta clean_nextExp_lower_bound)

lemma Next_store:
  "snd (snd (Next it b t)) =
     (if it_position it < length (list_b b) then snd (get (list_b b ! it_position it) t) else t)"
  by (simp add: Next_def Let_def split: prod.splits sum.splits error.splits)

lemma NewCache_invariants:
  "index_in_range (NewCache cfg)" "nextExp_lower_bound (NewCache cfg)"
  by (simp_all add: NewCache_def index_in_range_def nextExp_lower_bound_def Let_def)

lemma reachable_invariants:
  "reachable t \<Longrightarrow> index_in_range t \<and> nextExp_lower_bound t"
proof (induction rule: reachable.induct)
  case (r_New cfg)
  show ?case by (simp add: NewCache_invariants)
next
  case (r_Add t key item expiresIn now)
  then show ?case
    by (simp add: Cache_Add_def Let_def add_index_in_range add_nextExp_lower_bound)
next
  case (r_Get t key)
  then show ?case by (simp add: Cache_Get_def get_index_in_range get_nextExp_lower_bound)
next
  case (r_Update t key item)
  then show ?case by (simp add: Cache_Update_def update_index_in_range update_nextExp_lower_bound)
next
  case (r_Extend t key d)
  then show ?case
    by (simp add: Cache_Extend_def extend_key_index_in_range extend_key_nextExp_lower_bound)
next
  case (r_Delete t key)
  then show ?case by (simp add: Cache_Delete_def delete_index_in_range delete_nextExp_lower_bound)
next
  case (r_janitor t now clk)
  then show ?case by (simp add: janitor_index_in_range janitor_nextExp_lower_bound)
next
  case (r_clean t clk)
  then show ?case by (simp add: clean_index_in_range clean_nextExp_lower_bound)
next
  case (r_Bucket_Add t key item expiresIn now b)
  then show ?case
    by (simp add: Bucket_Add_def Let_def case_prod_beta add_index_in_range add_nextExp_lower_bound)
next
  case (r_Bucket_Get t key b)
  then show ?case by (simp add: Bucket_Get_def get_index_in_range get_nextExp_lower_bound)
next
  case (r_Bucket_Update t key item b)
  then show ?case by (simp add: Bucket_Update_def update_index_in_range update_nextExp_lower_bound)
next
  case (r_Bucket_Extend t key d b)
  then show ?case
    by (simp add: Bucket_Extend_def extend_key_index_in_range extend_key_nextExp_lower_bound)
next
  case (r_Bucket_Delete t key b)
  then show ?case
    by (simp add: Bucket_Delete_def Let_def case_prod_beta delete_index_in_range delete_nextExp_lower_bound)
next
  case (r_Next t it b)
  then show ?case
    by (simp add: Next_store get_index_in_range get_nextExp_lower_bound)
next
  case (r_Update_it t item it)
  then show ?case by (simp add: Update_it_def update_index_in_range update_nextExp_lower_bound)
qed

section \<open>Evaluating the concrete stores\<close>

lemmas eval_simps = Cache_Add_def Cache_Get_def Cache_Update_def Cache_Delete_def Cache_Extend_def
  add_def get_def update_def delete_def extend_key_def clean_def janitor_def
  NewCache_def defaultConfig_def config_cb_def defaultCleanDuration_def defaultRefreshDuration_def Second_def
  Let_def fnv64a_def Unix_def unixToInternal_def MaxInt64_def zeroTime_def After_def
  Time_Add_def addSec_def signed_divide_int_def signed_modulo_int_def fixed_clock_def

lemma store_added_eq:
  "store_added = \<lparr>slots = [\<lparr>Item = 7, ExpiresAt = Unix 1700000001 0, empty = False\<rparr>],
     keys = [fnv64a ''k'' \<mapsto> 0], nextExp = Unix 1700000001 0,
     config = \<lparr>OnExpires = True, Refresh = False, RefreshDuration = 0, CleanDuration = 10000000000\<rparr>\<rparr>"
  by (simp add: store_added_def eval_simps)

lemma store_swept_eq:
  "store_swept = \<lparr>slots = [\<lparr>Item = 7, ExpiresAt = Unix 1700000001 0, empty = True\<rparr>],
     keys = [fnv64a ''k'' \<mapsto> 0], nextExp = zeroTime,
     config = \<lparr>OnExpires = True, Refresh = False, RefreshDuration = 0, CleanDuration = 10000000000\<rparr>\<rparr>"
  unfolding store_swept_def store_added_eq by (simp add: eval_simps)

lemma janitor_store_added:
  "janitor (Unix 1700000100 0) (fixed_clock (Unix 1700000100 0)) store_added = (Inr [7], store_swept)"
  unfolding store_swept_eq unfolding store_added_eq by (simp add: eval_simps)

lemma reachable_store_added: "reachable store_added"
  unfolding store_added_def by (intro reachable.intros)

lemma reachable_store_swept: "reachable store_swept"
  unfolding store_swept_def by (intro reachable.intros reachable_store_added)

section \<open>Lookup\<close>

lemma reachable_index: "reachable t \<Longrightarrow> keys t key = Some idx \<Longrightarrow> idx < length (slots t)"
  using reachable_invariants [of t] by (simp add: index_in_range_def)

lemma get_tombstoned:
  "keys t key = Some idx \<Longrightarrow> idx < length (slots t) \<Longrightarrow> empty (slots t ! idx) \<Longrightarrow>
     get key t = (Inl ErrDNE, t\<lparr>keys := (keys t)(key := None)\<rparr>)"
  by (simp add: get_def)

lemma extend_key_mapped:
  "keys t key = Some idx \<Longrightarrow> idx < length (slots t) \<Longrightarrow> fst (extend_key key d t) = None"
  by (simp add: extend_key_def Let_def)

lemma get_live:
  "keys t key = Some idx \<Longrightarrow> idx < length (slots t) \<Longrightarrow> \<not> empty (slots t ! idx) \<Longrightarrow>
     fst (get key t) = Inr (Item (slots t ! idx))"
  using extend_key_mapped [of t key idx "RefreshDuration (config t)"]
  by (auto simp: get_def Let_def split: prod.splits option.splits)

text \<open>
  C1, as stated, fails: \<^verbatim>\<open>get\<close> never reads the clock. In the reachable store
  \<open>store_added\<close> the key \<open>''k''\<close> is mapped and its slot's expiration has passed at Unix time
  1700000100, no sweep has run, and \<^verbatim>\<open>Get\<close> returns the stored value 7 and keeps the mapping.
\<close>

theorem Get_ignores_expiration_counterexample:
  "reachable store_added
     \<and> keys store_added (fnv64a ''k'') = Some 0
     \<and> After (Unix 1700000100 0) (ExpiresAt (slots store_added ! 0))
     \<and> fst (Cache_Get ''k'' store_added) = Inr 7
     \<and> fst (Cache_Get ''k'' store_added) \<noteq> Inl ErrDNE
     \<and> keys (snd (Cache_Get ''k'' store_added)) (fnv64a ''k'') = Some 0"
proof -
  have "After (Unix 1700000100 0) (ExpiresAt (slots store_added ! 0))"
    unfolding store_added_eq by (simp add: After_def Unix_def unixToInternal_def)
  moreover have "Cache_Get ''k'' store_added = (Inr 7, store_added)"
    unfolding store_added_eq by (simp add: Cache_Get_def get_def)
  moreover have "keys store_added (fnv64a ''k'') = Some 0"
    unfolding store_added_eq by simp
  ultimately show ?thesis using reachable_store_added by simp
qed

text \<open>
  C1, amended: in every reachable store, for every key that is mapped in the fingerprint
  index, \<^verbatim>\<open>Get\<close> fails with \<^verbatim>\<open>ErrDNE\<close> and removes the stale mapping when the slot is
  tombstoned; when the slot is not tombstoned \<^verbatim>\<open>Get\<close> returns the stored value, whether
  or not the slot's expiration timestamp has passed.
\<close>

theorem Get_checks_tombstone_only:
  "reachable t \<Longrightarrow> keys t (fnv64a k) = Some idx \<Longrightarrow>
     (empty (slots t ! idx) \<longrightarrow>
        Cache_Get k t = (Inl ErrDNE, t\<lparr>keys := (keys t)(fnv64a k := None)\<rparr>))
     \<and> (\<not> empty (slots t ! idx) \<longrightarrow> fst (Cache_Get k t) = Inr (Item (slots t ! idx)))"
  using reachable_index [of t "fnv64a k" idx]
  by (simp add: Cache_Get_def get_tombstoned get_live)

theorem Get_checks_tombstone_only_witness:
  "Cache_Get ''k'' store_swept
       = (Inl ErrDNE, store_swept\<lparr>keys := (keys store_swept)(fnv64a ''k'' := None)\<rparr>)
     \<and> After (Unix 1700000100 0) (ExpiresAt (slots store_added ! 0))
     \<and> fst (Cache_Get ''k'' store_added) = Inr 7"
proof -
  have k1: "keys store_swept (fnv64a ''k'') = Some 0" and e1: "empty (slots store_swept ! 0)"
    unfolding store_swept_eq by simp_all
  have k2: "keys store_added (fnv64a ''k'') = Some 0" and e2: "\<not> empty (slots store_added ! 0)"
    and i2: "Item (slots store_added ! 0) = 7"
    and a2: "After (Unix 1700000100 0) (ExpiresAt (slots store_added ! 0))"
    unfolding store_added_eq by (simp_all add: After_def Unix_def unixToInternal_def)
  from Get_checks_tombstone_only [OF reachable_store_swept k1] e1
    Get_checks_tombstone_only [OF reachable_store_added k2] e2 i2 a2
  show ?thesis by simp
qed

section \<open>Insertion of a key that is already mapped\<close>

text \<open>
  C5: for every key whose fingerprint is mapped (to a live slot or to any other), \<^verbatim>\<open>Add\<close>
  fails with \<^verbatim>\<open>ErrCollision\<close> and returns the store as it was: the slot sequence with the
  first value and its expiration, the fingerprint index and \<^verbatim>\<open>nextExp\<close> are unchanged.
\<close>

theorem Add_Collision_leaves_store_unchanged:
  "keys t (fnv64a k) = Some idx \<Longrightarrow> Cache_Add k v2 ttl2 now t = (Some ErrCollision, t)"
  by (simp add: Cache_Add_def Let_def add_Collision)

theorem Add_Collision_leaves_store_unchanged_witness:
  "keys store_added (fnv64a ''k'') = Some 0
     \<and> Cache_Add ''k'' 9 (5 * Second) (Unix 1700000000 500) store_added
         = (Some ErrCollision, store_added)
     \<and> fst (Cache_Get ''k'' store_added) = Inr 7"
proof -
  have h: "keys store_added (fnv64a ''k'') = Some 0"
    unfolding store_added_eq by simp
  have g: "fst (Cache_Get ''k'' store_added) = Inr 7"
    unfolding store_added_eq by (simp add: Cache_Get_def get_def)
  from Add_Collision_leaves_store_unchanged [OF h] h g show ?thesis by simp
qed

section \<open>Update\<close>

lemma update_mapped:
  "keys t key = Some idx \<Longrightarrow> idx < length (slots t) \<Longrightarrow>
     update key item t = (None, t\<lparr>slots := (slots t)[idx := (slots t ! idx)\<lparr>Item := item\<rparr>]\<rparr>)"
  by (simp add: update_def)

lemma update_unmapped: "keys t key = None \<Longrightarrow> update key item t = (Some ErrDNE, t)"
  by (simp add: update_def)

text \<open>
  C6, as stated, fails for a mapped key whose slot a sweep has tombstoned: in the reachable
  store \<open>store_swept\<close> the key \<open>''k''\<close> is mapped, \<^verbatim>\<open>Update\<close> succeeds, and the following
  \<^verbatim>\<open>Get\<close> fails with \<^verbatim>\<open>ErrDNE\<close> instead of returning the new value.
\<close>

theorem Update_then_Get_tombstoned_counterexample:
  "reachable store_swept
     \<and> janitor (Unix 1700000100 0) (fixed_clock (Unix 1700000100 0)) store_added
         = (Inr [7], store_swept)
     \<and> empty (slots store_swept ! 0)
     \<and> keys store_swept (fnv64a ''k'') = Some 0
     \<and> fst (Cache_Update ''k'' 9 store_swept) = None
     \<and> fst (Cache_Get ''k'' (snd (Cache_Update ''k'' 9 store_swept))) = Inl ErrDNE
     \<and> fst (Cache_Get ''k'' (snd (Cache_Update ''k'' 9 store_swept))) \<noteq> Inr 9"
proof -
  have "keys store_swept (fnv64a ''k'') = Some 0" "empty (slots store_swept ! 0)"
    unfolding store_swept_eq by simp_all
  moreover note janitor_store_added
  moreover have "fst (Cache_Update ''k'' 9 store_swept) = None"
    unfolding store_swept_eq by (simp add: Cache_Update_def update_def)
  moreover have "fst (Cache_Get ''k'' (snd (Cache_Update ''k'' 9 store_swept))) = Inl ErrDNE"
    unfolding store_swept_eq by (simp add: Cache_Update_def update_def Cache_Get_def get_def)
  ultimately show ?thesis using reachable_store_swept by simp
qed

text \<open>
  C6, amended: in every reachable store, \<^verbatim>\<open>Update\<close> of an unmapped key fails with \<^verbatim>\<open>ErrDNE\<close>
  and leaves the store as it was; \<^verbatim>\<open>Update\<close> of a mapped key succeeds and replaces only the
  stored value of its slot (the slot's expiration and tombstone flag, every other slot, the
  index and \<^verbatim>\<open>nextExp\<close> are unchanged), and when that slot is not tombstoned a subsequent
  \<^verbatim>\<open>Get\<close> of the key returns the new value.
\<close>

theorem Update_replaces_value_only:
  "reachable t \<Longrightarrow>
     (keys t (fnv64a k) = None \<longrightarrow> Cache_Update k v2 t = (Some ErrDNE, t))
     \<and> (\<forall>idx. keys t (fnv64a k) = Some idx \<longrightarrow>
           Cache_Update k v2 t
             = (None, t\<lparr>slots := (slots t)[idx := (slots t ! idx)\<lparr>Item := v2\<rparr>]\<rparr>)
           \<and> ExpiresAt (slots (snd (Cache_Update k v2 t)) ! idx) = ExpiresAt (slots t ! idx)
           \<and> empty (slots (snd (Cache_Update k v2 t)) ! idx) = empty (slots t ! idx)
           \<and> (\<forall>j. j \<noteq> idx \<longrightarrow> slots (snd (Cache_Update k v2 t)) ! j = slots t ! j)
           \<and> keys (snd (Cache_Update k v2 t)) = keys t
           \<and> nextExp (snd (Cache_Update k v2 t)) = nextExp t
           \<and> (\<not> empty (slots t ! idx) \<longrightarrow>
                fst (Cache_Get k (snd (Cache_Update k v2 t))) = Inr v2))"
proof (intro conjI allI impI)
  assume "keys t (fnv64a k) = None"
  then show "Cache_Update k v2 t = (Some ErrDNE, t)"
    by (simp add: Cache_Update_def update_unmapped)
next
  fix idx
  assume r: "reachable t" and k: "keys t (fnv64a k) = Some idx"
  from reachable_index [OF r k] have i: "idx < length (slots t)" .
  show u: "Cache_Update k v2 t
      = (None, t\<lparr>slots := (slots t)[idx := (slots t ! idx)\<lparr>Item := v2\<rparr>]\<rparr>)"
    by (simp add: Cache_Update_def update_mapped [OF k i])
  show "ExpiresAt (slots (snd (Cache_Update k v2 t)) ! idx) = ExpiresAt (slots t ! idx)"
    using i by (simp add: u)
  show "empty (slots (snd (Cache_Update k v2 t)) ! idx) = empty (slots t ! idx)"
    using i by (simp add: u)
  show "slots (snd (Cache_Update k v2 t)) ! j = slots t ! j" if "j \<noteq> idx" for j
    using that by (simp add: u)
  show "keys (snd (Cache_Update k v2 t)) = keys t"
    by (simp add: u)
  show "nextExp (snd (Cache_Update k v2 t)) = nextExp t"
    by (simp add: u)
  show "fst (Cache_Get k (snd (Cache_Update k v2 t))) = Inr v2" if "\<not> empty (slots t ! idx)"
  proof -
    let ?t' = "t\<lparr>slots := (slots t)[idx := (slots t ! idx)\<lparr>Item := v2\<rparr>]\<rparr>"
    have "fst (get (fnv64a k) ?t') = Inr (Item (slots ?t' ! idx))"
      using k i that by (intro get_live) simp_all
    then show ?thesis using i by (simp add: u Cache_Get_def)
  qed
qed

theorem Update_replaces_value_only_witness:
  "Cache_Update ''k'' 9 store_added
       = (None, store_added\<lparr>slots := (slots store_added)[0 := (slots store_added ! 0)\<lparr>Item := 9\<rparr>]\<rparr>)
     \<and> fst (Cache_Get ''k'' (snd (Cache_Update ''k'' 9 store_added))) = Inr 9
     \<and> ExpiresAt (slots (snd (Cache_Update ''k'' 9 store_added)) ! 0) = Unix 1700000001 0
     \<and> Cache_Update ''q'' 9 store_added = (Some ErrDNE, store_added)"
proof -
  have k: "keys store_added (fnv64a ''k'') = Some 0" and e: "\<not> empty (slots store_added ! 0)"
    and x: "ExpiresAt (slots store_added ! 0) = Unix 1700000001 0"
    and q: "keys store_added (fnv64a ''q'') = None"
    unfolding store_added_eq by (simp_all add: fnv64a_def)
  note a = Update_replaces_value_only [OF reachable_store_added, of "''k''" 9,
      THEN conjunct2, rule_format, OF k]
  note b = Update_replaces_value_only [OF reachable_store_added, of "''q''" 9,
      THEN conjunct1, rule_format, OF q]
  from a have a1: "Cache_Update ''k'' 9 store_added
       = (None, store_added\<lparr>slots := (slots store_added)[0 := (slots store_added ! 0)\<lparr>Item := 9\<rparr>]\<rparr>)"
    by (rule conjunct1)
  from a e have a2: "fst (Cache_Get ''k'' (snd (Cache_Update ''k'' 9 store_added))) = Inr 9"
    by blast
  from a x have a3: "ExpiresAt (slots (snd (Cache_Update ''k'' 9 store_added)) ! 0) = Unix 1700000001 0"
    by metis
  from a1 a2 a3 b show ?thesis by (intro conjI)
qed

section \<open>The index after a sweep\<close>

lemma clean_tombstones:
  "idx < length (slots t) \<Longrightarrow> \<not> empty (slots t ! idx) \<Longrightarrow> After (clk idx) (ExpiresAt (slots t ! idx))
     \<Longrightarrow> empty (slots (snd (clean clk t)) ! idx)"
  by (simp add: clean_def case_prod_beta clean_loop_slots)

lemma clean_length: "length (slots (snd (clean clk t))) = length (slots t)"
  by (simp add: clean_def case_prod_beta clean_loop_length)

lemma janitor_keys: "keys (snd (janitor now clk t)) = keys t"
  by (simp add: janitor_def case_prod_beta clean_keys)

lemma update_keys: "keys (snd (update key item t)) = keys t"
  by (simp add: update_def split: option.splits)

lemma extend_key_keys: "keys (snd (extend_key key d t)) = keys t"
  by (simp add: extend_key_def Let_def split: option.splits)

lemma add_keeps_mapping: "keys t key = Some idx \<Longrightarrow> keys (snd (add key' item e t)) key = Some idx"
proof (cases "keys t key'")
  case None
  assume k: "keys t key = Some idx"
  with None have "key \<noteq> key'" by auto
  with add_keys [OF None, of item e] k show ?thesis by auto
next
  case (Some i)
  assume "keys t key = Some idx"
  then show ?thesis by (simp add: add_Collision [OF Some])
qed

lemma get_other_keeps_mapping: "key' \<noteq> key \<Longrightarrow> keys (snd (get key' t)) key = keys t key"
  using get_cases [of key' t] by (auto simp: extend_key_keys)

lemma delete_other_keeps_mapping: "key' \<noteq> key \<Longrightarrow> keys (snd (delete key' t)) key = keys t key"
  by (simp add: delete_def split: option.splits)

lemma delete_mapped:
  "keys t key = Some idx \<Longrightarrow> idx < length (slots t) \<Longrightarrow>
     delete key t = (None, t\<lparr>slots := (slots t)[idx := (slots t ! idx)\<lparr>empty := True\<rparr>],
                              keys := (keys t)(key := None)\<rparr>)"
  by (simp add: delete_def)

text \<open>
  C9, as stated, fails in its last part: a \<^verbatim>\<open>Get\<close> is not the only operation that removes
  the stale mapping. In the reachable store \<open>store_swept\<close> the slot of \<open>''k''\<close> is tombstoned
  and the key is still mapped; \<^verbatim>\<open>Delete\<close> of the key succeeds and removes the mapping, and
  the \<^verbatim>\<open>Add\<close> after it succeeds, with no \<^verbatim>\<open>Get\<close> in between.
\<close>

theorem Delete_also_drops_stale_mapping_counterexample:
  "reachable store_swept
     \<and> janitor (Unix 1700000100 0) (fixed_clock (Unix 1700000100 0)) store_added
         = (Inr [7], store_swept)
     \<and> empty (slots store_swept ! 0)
     \<and> keys store_swept (fnv64a ''k'') = Some 0
     \<and> fst (Cache_Delete ''k'' store_swept) = None
     \<and> keys (snd (Cache_Delete ''k'' store_swept)) (fnv64a ''k'') = None
     \<and> fst (Cache_Add ''k'' 8 Second (Unix 1700000200 0) (snd (Cache_Delete ''k'' store_swept))) = None"
proof -
  have "empty (slots store_swept ! 0)" "keys store_swept (fnv64a ''k'') = Some 0"
    unfolding store_swept_eq by simp_all
  moreover note janitor_store_added
  moreover have d: "Cache_Delete ''k'' store_swept = (None, store_swept\<lparr>keys := Map.empty\<rparr>)"
    unfolding store_swept_eq by (simp add: Cache_Delete_def delete_def)
  moreover have "fst (Cache_Add ''k'' 8 Second (Unix 1700000200 0) (store_swept\<lparr>keys := Map.empty\<rparr>)) = None"
    by (simp add: Cache_Add_def Let_def add_fst)
  ultimately show ?thesis using reachable_store_swept by simp
qed

text \<open>
  C9, amended: a sweep never changes the index. When it tombstones the expired slot of a
  mapped key, the key stays mapped: in that state \<^verbatim>\<open>Add\<close> of the key fails with
  \<^verbatim>\<open>ErrCollision\<close> and changes nothing; a \<^verbatim>\<open>Get\<close> of the key fails with \<^verbatim>\<open>ErrDNE\<close> and removes
  the mapping, and so does a (successful) \<^verbatim>\<open>Delete\<close> of the key, after either of which
  \<^verbatim>\<open>Add\<close> of the key succeeds; \<^verbatim>\<open>Add\<close> of any key, \<^verbatim>\<open>Update\<close>, \<^verbatim>\<open>Extend\<close>, a further wake-up
  of the janitor, and \<^verbatim>\<open>Get\<close> or \<^verbatim>\<open>Delete\<close> of a key with another fingerprint leave the
  mapping in place.
\<close>

theorem sweep_keeps_index_entries:
  assumes "reachable t" and "keys t (fnv64a k) = Some idx"
    and "\<not> empty (slots t ! idx)" and "After (clk idx) (ExpiresAt (slots t ! idx))"
    and "t' = snd (clean clk t)"
  shows "keys t' = keys t \<and> empty (slots t' ! idx)
     \<and> Cache_Add k v ttl now t' = (Some ErrCollision, t')
     \<and> Cache_Get k t' = (Inl ErrDNE, t'\<lparr>keys := (keys t')(fnv64a k := None)\<rparr>)
     \<and> fst (Cache_Add k v ttl now (snd (Cache_Get k t'))) = None
     \<and> fst (Cache_Delete k t') = None
     \<and> keys (snd (Cache_Delete k t')) (fnv64a k) = None
     \<and> fst (Cache_Add k v ttl now (snd (Cache_Delete k t'))) = None
     \<and> keys (snd (Cache_Add k' v' ttl' now' t')) (fnv64a k) = Some idx
     \<and> keys (snd (Cache_Update k' v' t')) = keys t'
     \<and> keys (snd (Cache_Extend k' d t')) = keys t'
     \<and> keys (snd (janitor now' clk' t')) = keys t'
     \<and> (fnv64a k' \<noteq> fnv64a k \<longrightarrow>
          keys (snd (Cache_Get k' t')) (fnv64a k) = Some idx
          \<and> keys (snd (Cache_Delete k' t')) (fnv64a k) = Some idx)"
proof -
  from reachable_index [OF assms(1,2)] have i: "idx < length (slots t)" .
  have ks: "keys t' = keys t"
    by (simp add: assms(5) clean_keys)
  then have k': "keys t' (fnv64a k) = Some idx"
    by (simp add: assms(2))
  have i': "idx < length (slots t')"
    using i by (simp add: assms(5) clean_length)
  have e: "empty (slots t' ! idx)"
    unfolding assms(5) using i assms(3,4) by (rule clean_tombstones)
  have c: "Cache_Add k v ttl now t' = (Some ErrCollision, t')"
    by (simp add: Cache_Add_def Let_def add_Collision [OF k'])
  have g: "Cache_Get k t' = (Inl ErrDNE, t'\<lparr>keys := (keys t')(fnv64a k := None)\<rparr>)"
    by (simp add: Cache_Get_def get_tombstoned [OF k' i' e])
  have ga: "fst (Cache_Add k v ttl now (snd (Cache_Get k t'))) = None"
    by (simp add: g Cache_Add_def Let_def add_fst)
  have dl: "Cache_Delete k t' = (None, t'\<lparr>slots := (slots t')[idx := (slots t' ! idx)\<lparr>empty := True\<rparr>],
                              keys := (keys t')(fnv64a k := None)\<rparr>)"
    by (simp add: Cache_Delete_def delete_mapped [OF k' i'])
  have da: "fst (Cache_Add k v ttl now (snd (Cache_Delete k t'))) = None"
    by (simp add: dl Cache_Add_def Let_def add_fst)
  have ad: "keys (snd (Cache_Add k' v' ttl' now' t')) (fnv64a k) = Some idx"
    by (simp add: Cache_Add_def Let_def add_keeps_mapping [OF k'])
  have up: "keys (snd (Cache_Update k' v' t')) = keys t'"
    by (simp add: Cache_Update_def update_keys)
  have ex: "keys (snd (Cache_Extend k' d t')) = keys t'"
    by (simp add: Cache_Extend_def extend_key_keys)
  have ot: "keys (snd (Cache_Get k' t')) (fnv64a k) = Some idx
          \<and> keys (snd (Cache_Delete k' t')) (fnv64a k) = Some idx" if "fnv64a k' \<noteq> fnv64a k"
    using that k' by (simp add: Cache_Get_def Cache_Delete_def get_other_keeps_mapping
        delete_other_keeps_mapping)
  show ?thesis
    using ks e c g ga da ad up ex ot by (simp add: dl janitor_keys)
qed

theorem sweep_keeps_index_entries_witness:
  "keys (snd (clean (fixed_clock (Unix 1700000100 0)) store_added)) (fnv64a ''k'') = Some 0
     \<and> empty (slots (snd (clean (fixed_clock (Unix 1700000100 0)) store_added)) ! 0)
     \<and> fst (Cache_Add ''k'' 8 Second (Unix 1700000200 0)
              (snd (clean (fixed_clock (Unix 1700000100 0)) store_added))) = Some ErrCollision
     \<and> fst (Cache_Get ''k'' (snd (clean (fixed_clock (Unix 1700000100 0)) store_added))) = Inl ErrDNE
     \<and> fst (Cache_Add ''k'' 8 Second (Unix 1700000200 0)
              (snd (Cache_Get ''k'' (snd (clean (fixed_clock (Unix 1700000100 0)) store_added))))) = None"
proof -
  have k: "keys store_added (fnv64a ''k'') = Some 0" and e: "\<not> empty (slots store_added ! 0)"
    and a: "After (fixed_clock (Unix 1700000100 0) 0) (ExpiresAt (slots store_added ! 0))"
    unfolding store_added_eq by (simp_all add: After_def Unix_def unixToInternal_def fixed_clock_def)
  define t' where "t' = snd (clean (fixed_clock (Unix 1700000100 0)) store_added)"
  note w = sweep_keeps_index_entries [where t = store_added and k = "''k''" and idx = 0
      and clk = "fixed_clock (Unix 1700000100 0)" and v = 8 and ttl = Second
      and now = "Unix 1700000200 0", OF reachable_store_added k e a t'_def]
  from w have 1: "keys t' = keys store_added" by (rule conjunct1)
  from w have 2: "empty (slots t' ! 0)" by blast
  from w have 3: "Cache_Add ''k'' 8 Second (Unix 1700000200 0) t' = (Some ErrCollision, t')"
    by blast
  from w have 4: "Cache_Get ''k'' t' = (Inl ErrDNE, t'\<lparr>keys := (keys t')(fnv64a ''k'' := None)\<rparr>)"
    by blast
  from w have 5: "fst (Cache_Add ''k'' 8 Second (Unix 1700000200 0) (snd (Cache_Get ''k'' t'))) = None"
    by blast
  from 1 k have 6: "keys t' (fnv64a ''k'') = Some 0" by simp
  from 3 have 7: "fst (Cache_Add ''k'' 8 Second (Unix 1700000200 0) t') = Some ErrCollision" by simp
  from 4 have 8: "fst (Cache_Get ''k'' t') = Inl ErrDNE" by simp
  from 6 2 7 8 5 show ?thesis unfolding t'_def by (intro conjI)
qed

section \<open>The cached next expiration\<close>

lemma reachable_store_extended: "reachable store_extended"
  unfolding store_extended_def by (intro reachable.intros reachable_store_added)

lemma store_extended_eq:
  "store_extended = \<lparr>slots = [\<lparr>Item = 7, ExpiresAt = Unix 1700000011 0, empty = False\<rparr>],
     keys = [fnv64a ''k'' \<mapsto> 0], nextExp = Unix 1700000001 0,
     config = \<lparr>OnExpires = True, Refresh = False, RefreshDuration = 0, CleanDuration = 10000000000\<rparr>\<rparr>"
  unfolding store_extended_def store_added_eq by (simp add: eval_simps)

text \<open>
  C2: in every state reachable from \<^verbatim>\<open>NewCache\<close> by \<^verbatim>\<open>Add\<close>, \<^verbatim>\<open>Get\<close>, \<^verbatim>\<open>Update\<close>, \<^verbatim>\<open>Extend\<close>,
  \<^verbatim>\<open>Delete\<close> (of the store or of a bucket), iterator steps and wake-ups of the janitor,
  \<^verbatim>\<open>nextExp\<close> is not after the expiration of any live slot, that is, of any slot that is
  mapped in the index and not tombstoned. The order is that of \<^verbatim>\<open>Time.After\<close>, the comparison
  the janitor makes. (\<open>nextExp_lower_bound\<close> shows the same for every slot that is not
  tombstoned, mapped or not.)
\<close>

theorem nextExp_never_stale_high:
  "reachable t \<Longrightarrow> keys t key = Some idx \<Longrightarrow> \<not> empty (slots t ! idx) \<Longrightarrow>
     \<not> After (nextExp t) (ExpiresAt (slots t ! idx))"
  using reachable_invariants [of t] reachable_index [of t key idx]
  by (simp add: nextExp_lower_bound_def)

theorem nextExp_never_stale_high_witness:
  "keys store_extended (fnv64a ''k'') = Some 0 \<and> \<not> empty (slots store_extended ! 0)
     \<and> nextExp store_extended = Unix 1700000001 0
     \<and> ExpiresAt (slots store_extended ! 0) = Unix 1700000011 0
     \<and> \<not> After (nextExp store_extended) (ExpiresAt (slots store_extended ! 0))"
proof -
  have k: "keys store_extended (fnv64a ''k'') = Some 0"
    and e: "\<not> empty (slots store_extended ! 0)"
    and n: "nextExp store_extended = Unix 1700000001 0"
    and x: "ExpiresAt (slots store_extended ! 0) = Unix 1700000011 0"
    unfolding store_extended_eq by simp_all
  from nextExp_never_stale_high [OF reachable_store_extended k e] k e n x
  show ?thesis by (intro conjI)
qed

section \<open>The never-expire sentinel\<close>

text \<open>Every clock reading from year 1 on is after the sentinel that \<^verbatim>\<open>Add\<close> stores for a
  zero duration: the sum in \<^verbatim>\<open>time.Unix(math.MaxInt64, 0)\<close> wraps around to a negative count
  of seconds.\<close>

lemma After_never_sentinel: "0 \<le> sint (ext now) \<Longrightarrow> After now (Unix MaxInt64 0)"
  by (simp add: After_def Unix_def MaxInt64_def unixToInternal_def)

lemma store_never_eq:
  "store_never = \<lparr>slots = [\<lparr>Item = 7, ExpiresAt = Unix MaxInt64 0, empty = False\<rparr>],
     keys = [fnv64a ''k'' \<mapsto> 0], nextExp = Unix MaxInt64 0,
     config = \<lparr>OnExpires = True, Refresh = False, RefreshDuration = 0, CleanDuration = 10000000000\<rparr>\<rparr>"
  by (simp add: store_never_def eval_simps)

text \<open>
  C3 on the code: after \<^verbatim>\<open>Add("k", 7, 0)\<close> the slot's expiration is
  \<^verbatim>\<open>time.Unix(math.MaxInt64, 0)\<close>, whose second count is negative; ten seconds later the
  janitor's test \<^verbatim>\<open>After\<close> is true for it, the sweep tombstones the slot and hands the
  item to \<^verbatim>\<open>OnExpires\<close>, and \<^verbatim>\<open>Get\<close> fails with \<^verbatim>\<open>ErrDNE\<close>.
\<close>

theorem never_sentinel_is_swept:
  "reachable store_never
     \<and> ExpiresAt (slots store_never ! 0) = Unix MaxInt64 0
     \<and> sint (ext (Unix MaxInt64 0)) = - 9223371974719179009
     \<and> After (Unix 1700000010 0) (ExpiresAt (slots store_never ! 0))
     \<and> janitor (Unix 1700000010 0) (fixed_clock (Unix 1700000010 0)) store_never
         = (Inr [7], store_never\<lparr>slots := [\<lparr>Item = 7, ExpiresAt = Unix MaxInt64 0, empty = True\<rparr>],
                               nextExp := zeroTime\<rparr>)
     \<and> fst (Cache_Get ''k''
           (snd (janitor (Unix 1700000010 0) (fixed_clock (Unix 1700000010 0)) store_never)))
         = Inl ErrDNE"
proof -
  have r: "reachable store_never"
    unfolding store_never_def by (intro reachable.intros)
  have 1: "ExpiresAt (slots store_never ! 0) = Unix MaxInt64 0"
    unfolding store_never_eq by simp
  have 2: "sint (ext (Unix MaxInt64 0)) = - 9223371974719179009"
    by (simp add: Unix_def MaxInt64_def unixToInternal_def)
  have 3: "After (Unix 1700000010 0) (ExpiresAt (slots store_never ! 0))"
    unfolding 1 by (simp add: After_def Unix_def MaxInt64_def unixToInternal_def)
  have 4: "janitor (Unix 1700000010 0) (fixed_clock (Unix 1700000010 0)) store_never
         = (Inr [7], store_never\<lparr>slots := [\<lparr>Item = 7, ExpiresAt = Unix MaxInt64 0, empty = True\<rparr>],
                               nextExp := zeroTime\<rparr>)"
    unfolding store_never_eq by (simp add: eval_simps)
  have 5: "fst (Cache_Get ''k''
           (snd (janitor (Unix 1700000010 0) (fixed_clock (Unix 1700000010 0)) store_never)))
         = Inl ErrDNE"
    unfolding 4 unfolding store_never_eq by (simp add: Cache_Get_def get_def)
  from r 1 2 3 4 5 show ?thesis by (intro conjI)
qed

section \<open>Slot reuse\<close>

text \<open>With no tombstoned slot \<^verbatim>\<open>add\<close> appends the entry; with exactly one it overwrites that
  slot and no other.\<close>

lemma add_appends_without_tombstone:
  assumes "keys t key = None" and "\<forall>i < length (slots t). \<not> empty (slots t ! i)"
  shows "slots (snd (add key item e t)) = slots t @ [\<lparr>Item = item, ExpiresAt = e, empty = False\<rparr>]"
    and "keys (snd (add key item e t)) = (keys t)(key \<mapsto> length (slots t))"
proof -
  from assms(2) have n: "\<not> (\<exists>c \<in> set (slots t). empty c)"
    by (auto simp: in_set_conv_nth)
  then show "slots (snd (add key item e t)) = slots t @ [\<lparr>Item = item, ExpiresAt = e, empty = False\<rparr>]"
    by (simp add: add_slots [OF assms(1)] reuse_def)
  from n show "keys (snd (add key item e t)) = (keys t)(key \<mapsto> length (slots t))"
    using assms(1) by (simp add: add_def Let_def case_prod_beta add_loop_fit add_loop_slots map_no_empty)
qed

lemma add_reuses_single_tombstone:
  assumes "keys t key = None" and "j < length (slots t)" and "empty (slots t ! j)"
    and "\<forall>i < length (slots t). i \<noteq> j \<longrightarrow> \<not> empty (slots t ! i)"
  shows "slots (snd (add key item e t)) = (slots t)[j := \<lparr>Item = item, ExpiresAt = e, empty = False\<rparr>]"
    and "keys (snd (add key item e t)) = (keys t)(key \<mapsto> j)"
proof -
  define ts where "ts = \<lparr>Item = item, ExpiresAt = e, empty = False\<rparr>"
  from assms(2,3) have ex: "\<exists>c \<in> set (slots t). empty c"
    using nth_mem by blast
  have m: "map (\<lambda>c. if empty c then ts else c) (slots t) = (slots t)[j := ts]"
    using assms(2,3,4) by (intro nth_equalityI) (auto simp: nth_list_update)
  have "slots (snd (add key item e t)) = reuse ts (slots t)"
    by (simp add: add_slots [OF assms(1)] ts_def)
  also have "\<dots> = (slots t)[j := ts]"
    using ex m by (simp add: reuse_def)
  finally show "slots (snd (add key item e t)) = (slots t)[j := \<lparr>Item = item, ExpiresAt = e, empty = False\<rparr>]"
    unfolding ts_def .
  define idx where "idx = snd (snd (add_loop ts 0 (slots t) False 0))"
  from add_loop_idx [OF ex, of 0 ts False 0] have "idx < length (slots t)" "empty (slots t ! idx)"
    by (simp_all add: idx_def)
  with assms(4) have "idx = j" by auto
  then show "keys (snd (add key item e t)) = (keys t)(key \<mapsto> j)"
    using assms(1) ex by (simp add: add_def Let_def case_prod_beta add_loop_fit idx_def ts_def)
qed

lemma store_two_tombstones_eq:
  "store_two_tombstones =
     \<lparr>slots = [\<lparr>Item = 1, ExpiresAt = Unix 1700000001 0, empty = True\<rparr>,
               \<lparr>Item = 2, ExpiresAt = Unix 1700000001 0, empty = True\<rparr>],
      keys = Map.empty, nextExp = Unix 1700000001 0,
      config = \<lparr>OnExpires = True, Refresh = False, RefreshDuration = 0, CleanDuration = 10000000000\<rparr>\<rparr>"
  by (simp add: store_two_tombstones_def eval_simps)

text \<open>
  C4 on the code: with two tombstoned slots in the store, a successful \<^verbatim>\<open>Add\<close> writes the
  new entry into both of them (the reuse loop does not stop at the first fit) and maps the
  key to the last one; a later sweep then expires the entry twice.
\<close>

theorem Add_overwrites_every_tombstoned_slot:
  "reachable store_two_tombstones
     \<and> slots store_two_tombstones
         = [\<lparr>Item = 1, ExpiresAt = Unix 1700000001 0, empty = True\<rparr>,
            \<lparr>Item = 2, ExpiresAt = Unix 1700000001 0, empty = True\<rparr>]
     \<and> fst (Cache_Add ''c'' 3 Second (Unix 1700000005 0) store_two_tombstones) = None
     \<and> slots (snd (Cache_Add ''c'' 3 Second (Unix 1700000005 0) store_two_tombstones))
         = [\<lparr>Item = 3, ExpiresAt = Unix 1700000006 0, empty = False\<rparr>,
            \<lparr>Item = 3, ExpiresAt = Unix 1700000006 0, empty = False\<rparr>]
     \<and> keys (snd (Cache_Add ''c'' 3 Second (Unix 1700000005 0) store_two_tombstones))
         = [fnv64a ''c'' \<mapsto> 1]
     \<and> fst (janitor (Unix 1700000100 0) (fixed_clock (Unix 1700000100 0))
           (snd (Cache_Add ''c'' 3 Second (Unix 1700000005 0) store_two_tombstones))) = Inr [3, 3]"
proof -
  have r: "reachable store_two_tombstones"
    unfolding store_two_tombstones_def by (intro reachable.intros)
  have 1: "slots store_two_tombstones
         = [\<lparr>Item = 1, ExpiresAt = Unix 1700000001 0, empty = True\<rparr>,
            \<lparr>Item = 2, ExpiresAt = Unix 1700000001 0, empty = True\<rparr>]"
    unfolding store_two_tombstones_eq by simp
  have 2: "Cache_Add ''c'' 3 Second (Unix 1700000005 0) store_two_tombstones
         = (None, \<lparr>slots = [\<lparr>Item = 3, ExpiresAt = Unix 1700000006 0, empty = False\<rparr>,
                \<lparr>Item = 3, ExpiresAt = Unix 1700000006 0, empty = False\<rparr>],
              keys = [fnv64a ''c'' \<mapsto> 1], nextExp = Unix 1700000001 0,
              config = \<lparr>OnExpires = True, Refresh = False, RefreshDuration = 0, CleanDuration = 10000000000\<rparr>\<rparr>)"
    unfolding store_two_tombstones_eq by (simp add: eval_simps)
  have 3: "fst (janitor (Unix 1700000100 0) (fixed_clock (Unix 1700000100 0))
           (snd (Cache_Add ''c'' 3 Second (Unix 1700000005 0) store_two_tombstones))) = Inr [3, 3]"
    unfolding 2 by (simp add: eval_simps)
  from r 1 2 3 show ?thesis by simp
qed

section \<open>Composite keys of buckets\<close>

lemma pk_inj:
  "CHR ''-'' \<notin> set b1 \<Longrightarrow> CHR ''-'' \<notin> set b2 \<Longrightarrow> pk b1 k1 = pk b2 k2 \<Longrightarrow> b1 = b2 \<and> k1 = k2"
  unfolding pk_def by (induction b1 arbitrary: b2; case_tac b2) auto

lemma pk_has_separator: "CHR ''-'' \<in> set (pk b k)"
  by (simp add: pk_def)

text \<open>
  C7, as stated, fails: nothing keeps the separator out of names. The pairs
  \<open>(''a'', ''b-c'')\<close> and \<open>(''a-b'', ''c'')\<close> are distinct and have the same composite string
  and fingerprint; the key \<open>''b''\<close> of bucket \<open>''a''\<close> has the composite string and the
  fingerprint of the flat key \<open>''a-b''\<close>, so that \<^verbatim>\<open>Get("b")\<close> through the bucket returns the
  value stored under the flat key.
\<close>

theorem composite_keys_collide_counterexample:
  "pk ''a'' ''b-c'' = pk ''a-b'' ''c''
     \<and> (''a'', ''b-c'') \<noteq> (''a-b'', ''c'')
     \<and> hk ''a'' ''b-c'' = hk ''a-b'' ''c''
     \<and> pk ''a'' ''b'' = ''a-b''
     \<and> hk ''a'' ''b'' = fnv64a ''a-b''
     \<and> fst (Bucket_Get ''b'' \<lparr>name = ''a'', list_b = []\<rparr>
          (snd (Cache_Add ''a-b'' (7::nat) Second (Unix 1700000000 0) (NewCache None)))) = Inr 7"
proof -
  have 1: "pk ''a'' ''b-c'' = pk ''a-b'' ''c''" and 2: "(''a'', ''b-c'') \<noteq> (''a-b'', ''c'')"
    and 4: "pk ''a'' ''b'' = ''a-b''"
    by (simp_all add: pk_def)
  from 1 have 3: "hk ''a'' ''b-c'' = hk ''a-b'' ''c''" by (simp add: hk_def)
  from 4 have 5: "hk ''a'' ''b'' = fnv64a ''a-b''" by (simp add: hk_def)
  have 6: "fst (Bucket_Get ''b'' \<lparr>name = ''a'', list_b = []\<rparr>
          (snd (Cache_Add ''a-b'' (7::nat) Second (Unix 1700000000 0) (NewCache None)))) = Inr 7"
    by (simp add: Bucket_Get_def hk_def pk_def eval_simps)
  from 1 2 3 4 5 6 show ?thesis by (intro conjI)
qed

text \<open>
  C7, amended: every bucket operation works on the fingerprint of the single composite
  string \<open>name @ ''-'' @ key\<close>. Two distinct (bucket, key) pairs have different composite
  strings when neither bucket name contains the separator, and the composite string of a
  bucket-scoped key differs from every flat key that does not contain the separator.
  (Fingerprints of different strings are equal only where FNV-1a collides.)
\<close>

theorem bucket_fingerprint_of_composite_key:
  "hk (name b) key = fnv64a (name b @ ''-'' @ key)
     \<and> Bucket_Get key b t = get (fnv64a (name b @ ''-'' @ key)) t
     \<and> Bucket_Update key item b t = update (fnv64a (name b @ ''-'' @ key)) item t
     \<and> Bucket_Extend key d b t = extend_key (fnv64a (name b @ ''-'' @ key)) d t
     \<and> snd (snd (Bucket_Delete key b t)) = snd (delete (fnv64a (name b @ ''-'' @ key)) t)
     \<and> snd (snd (Bucket_Add key item d now b t))
         = snd (add (fnv64a (name b @ ''-'' @ key)) item (Time_Add now d) t)
     \<and> (CHR ''-'' \<notin> set b1 \<and> CHR ''-'' \<notin> set b2 \<and> (b1, k1) \<noteq> (b2, k2) \<longrightarrow> pk b1 k1 \<noteq> pk b2 k2)
     \<and> (CHR ''-'' \<notin> set flat \<longrightarrow> pk b1 k1 \<noteq> flat)"
proof -
  have a: "pk b1 k1 \<noteq> pk b2 k2" if "CHR ''-'' \<notin> set b1 \<and> CHR ''-'' \<notin> set b2 \<and> (b1, k1) \<noteq> (b2, k2)"
    using that pk_inj [of b1 b2 k1 k2] by auto
  have c: "pk b1 k1 \<noteq> flat" if "CHR ''-'' \<notin> set flat"
    using that pk_has_separator [of b1 k1] by auto
  show ?thesis
    using a c
    by (simp add: hk_def pk_def Bucket_Get_def Bucket_Update_def Bucket_Extend_def
        Bucket_Delete_def Bucket_Add_def Let_def case_prod_beta)
qed

theorem bucket_fingerprint_of_composite_key_witness:
  "CHR ''-'' \<notin> set ''a'' \<and> CHR ''-'' \<notin> set ''b'' \<and> (''a'', ''b-c'') \<noteq> (''b'', ''c'')
     \<and> pk ''a'' ''b-c'' \<noteq> pk ''b'' ''c''
     \<and> CHR ''-'' \<notin> set ''abc'' \<and> pk ''a'' ''b-c'' \<noteq> ''abc''"
proof -
  have h1: "CHR ''-'' \<notin> set ''a'' \<and> CHR ''-'' \<notin> set ''b'' \<and> (''a'', ''b-c'') \<noteq> (''b'', ''c'')"
    and h2: "CHR ''-'' \<notin> set ''abc''"
    by simp_all
  note w = bucket_fingerprint_of_composite_key [where ?b1.0 = "''a''" and ?k1.0 = "''b-c''"
      and ?b2.0 = "''b''" and ?k2.0 = "''c''" and flat = "''abc''",
      THEN conjunct2, THEN conjunct2, THEN conjunct2, THEN conjunct2, THEN conjunct2,
      THEN conjunct2]
  from w [THEN conjunct1, rule_format, OF h1] have 1: "pk ''a'' ''b-c'' \<noteq> pk ''b'' ''c''" .
  from w [THEN conjunct2, rule_format, OF h2] have 2: "pk ''a'' ''b-c'' \<noteq> ''abc''" .
  from h1 h2 1 2 show ?thesis by (intro conjI) simp_all
qed

section \<open>Iteration over a bucket\<close>

lemma bucket_xy_eq: "bucket_xy = \<lparr>name = ''b'', list_b = [hk ''b'' ''x'', hk ''b'' ''y'']\<rparr>"
  by (simp add: bucket_xy_def Bucket_Add_def bucket_b_def hk_def pk_def eval_simps)

lemma store_xy_eq:
  "store_xy = \<lparr>slots = [\<lparr>Item = 1, ExpiresAt = Unix 1700000001 0, empty = True\<rparr>,
                        \<lparr>Item = 2, ExpiresAt = Unix 1700001000 0, empty = False\<rparr>],
     keys = [hk ''b'' ''x'' \<mapsto> 0, hk ''b'' ''y'' \<mapsto> 1], nextExp = Unix 1700001000 0,
     config = \<lparr>OnExpires = True, Refresh = False, RefreshDuration = 0, CleanDuration = 10000000000\<rparr>\<rparr>"
  by (simp add: store_xy_def Bucket_Add_def bucket_b_def hk_def pk_def eval_simps)

lemma resolve_xy:
  "resolve_all (list_b bucket_xy) store_xy = [(hk ''b'' ''x'', None), (hk ''b'' ''y'', Some 2)]"
  unfolding bucket_xy_eq store_xy_eq
  by (simp add: value_or_nil_def get_def hk_def pk_def fnv64a_def)


lemma get_result:
  "index_in_range t \<Longrightarrow> fst (get key t) = Inl ErrDNE \<or> (\<exists>v. fst (get key t) = Inr v)"
proof (cases "keys t key")
  case None
  then show ?thesis by (simp add: get_def)
next
  case (Some idx)
  assume "index_in_range t"
  with Some have i: "idx < length (slots t)" by (simp add: index_in_range_def)
  show ?thesis
  proof (cases "empty (slots t ! idx)")
    case True
    with Some i show ?thesis by (simp add: get_tombstoned)
  next
    case False
    with Some i show ?thesis by (simp add: get_live)
  qed
qed

lemma Next_step:
  assumes "index_in_range t" and "it_position it < length (list_b b)"
  shows "Next it b t =
     (Inr True,
      it\<lparr>it_key := list_b b ! it_position it,
         it_item := value_or_nil (fst (get (list_b b ! it_position it) t)),
         it_position := it_position it + 1\<rparr>,
      snd (get (list_b b ! it_position it) t))"
  using get_result [OF assms(1), of "list_b b ! it_position it"] assms(2)
  by (auto simp: Next_def Let_def value_or_nil_def split: prod.splits)

lemma Next_end: "\<not> it_position it < length (list_b b) \<Longrightarrow> Next it b t = (Inr False, it, t)"
  by (simp add: Next_def)

lemma iterate_resolve:
  "index_in_range t \<Longrightarrow>
     fst (iterate it b t) = resolve_all (drop (it_position it) (list_b b)) t
     \<and> fst (snd (iterate it b t)) = Inr False
     \<and> it_position (fst (snd (snd (iterate it b t)))) = max (it_position it) (length (list_b b))"
proof (induction "length (list_b b) - it_position it" arbitrary: it t)
  case 0
  then have "\<not> it_position it < length (list_b b)" by simp
  then show ?case
    by (subst (1 2 3) iterate.simps) (simp add: Next_end)
next
  case (Suc n)
  then have lt: "it_position it < length (list_b b)" by simp
  define k where "k = list_b b ! it_position it"
  define it' where "it' = it\<lparr>it_key := k, it_item := value_or_nil (fst (get k t)),
         it_position := it_position it + 1\<rparr>"
  define t' where "t' = snd (get k t)"
  have n: "Next it b t = (Inr True, it', t')"
    using Next_step [OF Suc.prems lt] by (simp add: it'_def t'_def k_def)
  have r: "index_in_range t'"
    using Suc.prems by (simp add: t'_def get_index_in_range)
  have m: "n = length (list_b b) - it_position it'"
    using Suc.hyps(2) by (simp add: it'_def)
  note ih = Suc.hyps(1) [OF m r]
  have eq: "iterate it b t =
      ((it_key it', Item_it it') # fst (iterate it' b t'), snd (iterate it' b t'))"
    by (subst iterate.simps) (simp add: n case_prod_beta)
  have d: "drop (it_position it) (list_b b) = k # drop (it_position it') (list_b b)"
    using lt by (simp add: k_def it'_def Cons_nth_drop_Suc)
  have p: "max (it_position it') (length (list_b b)) = max (it_position it) (length (list_b b))"
    using lt by (simp add: it'_def)
  show ?case
    unfolding eq d using ih p
    by (simp add: it'_def t'_def Item_it_def)
qed

text \<open>
  C8: over a reachable store, \<^verbatim>\<open>Next\<close> at a position inside the membership list returns
  true, takes the fingerprint at that position, keeps the value \<^verbatim>\<open>get\<close> returns for it, or
  no value when \<^verbatim>\<open>get\<close> fails (the error is dropped), and advances the position by one;
  at any other position it returns false and changes nothing. So the loop over a fresh
  iterator visits the fingerprints of the membership list once each, in the order of the
  list, which is the order of insertion (\<^verbatim>\<open>Bucket.Add\<close> appends a new fingerprint at the
  end), and then \<^verbatim>\<open>Next\<close> returns false.
\<close>

theorem iterator_visits_each_entry_once:
  assumes "reachable t"
  shows "(it_position it < length (list_b b) \<longrightarrow>
            Next it b t =
              (Inr True,
               it\<lparr>it_key := list_b b ! it_position it,
                  it_item := value_or_nil (fst (get (list_b b ! it_position it) t)),
                  it_position := it_position it + 1\<rparr>,
               snd (get (list_b b ! it_position it) t)))
     \<and> (\<not> it_position it < length (list_b b) \<longrightarrow> Next it b t = (Inr False, it, t))
     \<and> fst (iterate Iterator b t) = resolve_all (list_b b) t
     \<and> map fst (fst (iterate Iterator b t)) = list_b b
     \<and> fst (snd (iterate Iterator b t)) = Inr False
     \<and> it_position (fst (snd (snd (iterate Iterator b t)))) = length (list_b b)
     \<and> list_b (fst (snd (Bucket_Add key item expiresIn now b t)))
         = (if hk (name b) key \<in> set (list_b b) then list_b b else list_b b @ [hk (name b) key])"
proof -
  from assms have i: "index_in_range t"
    using reachable_invariants by blast
  have m: "map fst (resolve_all ks t') = ks" for ks and t' :: "'a Cache"
    by (induction ks arbitrary: t') simp_all
  have e: "exists_loop ks h = (h \<in> set ks)" for ks h
    by (induction ks) auto
  have a: "list_b (fst (snd (Bucket_Add key item expiresIn now b t)))
         = (if hk (name b) key \<in> set (list_b b) then list_b b else list_b b @ [hk (name b) key])"
    by (simp add: Bucket_Add_def Let_def case_prod_beta e)
  from iterate_resolve [OF i, of Iterator b]
  have r: "fst (iterate Iterator b t) = resolve_all (list_b b) t"
    "fst (snd (iterate Iterator b t)) = Inr False"
    "it_position (fst (snd (snd (iterate Iterator b t)))) = length (list_b b)"
    by (simp_all add: Iterator_def)
  show ?thesis
    using Next_step [OF i, of it b] Next_end [of it b t] r a
    by (simp add: m)
qed

theorem iterator_visits_each_entry_once_witness:
  "list_b bucket_xy = [hk ''b'' ''x'', hk ''b'' ''y'']
     \<and> empty (slots store_xy ! 0)
     \<and> keys store_xy (hk ''b'' ''x'') = Some 0
     \<and> fst (iterate Iterator bucket_xy store_xy) = [(hk ''b'' ''x'', None), (hk ''b'' ''y'', Some 2)]
     \<and> fst (snd (iterate Iterator bucket_xy store_xy)) = Inr False
     \<and> it_position (fst (snd (snd (iterate Iterator bucket_xy store_xy)))) = 2"
proof -
  have r: "reachable store_xy"
    unfolding store_xy_def by (intro reachable.intros)
  have l: "list_b bucket_xy = [hk ''b'' ''x'', hk ''b'' ''y'']"
    by (simp add: bucket_xy_eq)
  have s: "empty (slots store_xy ! 0)" "keys store_xy (hk ''b'' ''x'') = Some 0"
    unfolding store_xy_eq by (simp_all add: hk_def pk_def fnv64a_def)
  note w = iterator_visits_each_entry_once [OF r, where b = bucket_xy,
      THEN conjunct2, THEN conjunct2]
  from w have 1: "fst (iterate Iterator bucket_xy store_xy) = resolve_all (list_b bucket_xy) store_xy"
    by (rule conjunct1)
  from w have 2: "fst (snd (iterate Iterator bucket_xy store_xy)) = Inr False"
    by blast
  from w have 3: "it_position (fst (snd (snd (iterate Iterator bucket_xy store_xy))))
      = length (list_b bucket_xy)"
    by blast
  from 1 have 4: "fst (iterate Iterator bucket_xy store_xy)
      = [(hk ''b'' ''x'', None), (hk ''b'' ''y'', Some 2)]"
    by (simp only: resolve_xy)
  from 3 have 5: "it_position (fst (snd (snd (iterate Iterator bucket_xy store_xy)))) = 2"
    by (simp only: l) simp
  from l s 4 2 5 show ?thesis by (intro conjI)
qed

section \<open>Expiration of entries added through a bucket\<close>

lemma Time_Add_zero:
  "0 \<le> sint (nsec now) \<Longrightarrow> sint (nsec now) < 1000000000 \<Longrightarrow> Time_Add now 0 = now"
  by (simp add: Time_Add_def addSec_def Let_def)

text \<open>\<^verbatim>\<open>t.Add(d)\<close> is the time \<open>d\<close> nanoseconds after \<open>t\<close>, for every duration, positive, zero
  or negative, when \<open>t\<close> has its nanoseconds in range and is far from the ends of the
  \<^verbatim>\<open>int64\<close> range of seconds, as every clock reading is; a time with its nanoseconds in
  range is determined by its instant.\<close>

lemma sint_of_int_64: "- (2 ^ 63) \<le> x \<Longrightarrow> x < 2 ^ 63 \<Longrightarrow> sint (word_of_int x :: int64) = x"
  by (simp add: sint_sbintrunc' signed_take_bit_int_eq_self)

lemma sint_of_int_32: "- (2 ^ 31) \<le> x \<Longrightarrow> x < 2 ^ 31 \<Longrightarrow> sint (word_of_int x :: int32) = x"
  by (simp add: sint_sbintrunc' signed_take_bit_int_eq_self)

lemma sint_add_64:
  "- (2 ^ 63) \<le> sint a + sint b \<Longrightarrow> sint a + sint b < 2 ^ 63 \<Longrightarrow> sint (a + b :: int64) = sint a + sint b"
  by (simp add: sint_word_ariths signed_take_bit_int_eq_self)

lemma sint_add_32:
  "- (2 ^ 31) \<le> sint a + sint b \<Longrightarrow> sint a + sint b < 2 ^ 31 \<Longrightarrow> sint (a + b :: int32) = sint a + sint b"
  by (simp add: sint_word_ariths signed_take_bit_int_eq_self)

lemma sint_diff_32:
  "- (2 ^ 31) \<le> sint a - sint b \<Longrightarrow> sint a - sint b < 2 ^ 31 \<Longrightarrow> sint (a - b :: int32) = sint a - sint b"
  by (simp add: sint_word_ariths signed_take_bit_int_eq_self)

lemma sint_diff_64:
  "- (2 ^ 63) \<le> sint a - sint b \<Longrightarrow> sint a - sint b < 2 ^ 63 \<Longrightarrow> sint (a - b :: int64) = sint a - sint b"
  by (simp add: sint_word_ariths signed_take_bit_int_eq_self)

lemma smod_bounds: "- 1000000000 < (k::int) smod 1000000000 \<and> k smod 1000000000 < 1000000000"
proof -
  have "0 \<le> \<bar>k\<bar> mod 1000000000" "\<bar>k\<bar> mod 1000000000 < 1000000000" by simp_all
  then show ?thesis
    by (cases "k < 0"; cases "k = 0") (simp_all add: signed_modulo_int_def sgn_if)
qed

lemma sdiv_bounds:
  "- (2 ^ 63) \<le> (k::int) \<Longrightarrow> k < 2 ^ 63 \<Longrightarrow>
     - 9223372037 \<le> k sdiv 1000000000 \<and> k sdiv 1000000000 \<le> 9223372037"
proof -
  assume a: "- (2 ^ 63) \<le> k" "k < 2 ^ 63"
  then have "\<bar>k\<bar> \<le> 2 ^ 63" by simp
  then have "\<bar>k\<bar> div 1000000000 \<le> 2 ^ 63 div 1000000000"
    by (rule zdiv_mono1) simp
  moreover have "0 \<le> \<bar>k\<bar> div 1000000000" by simp
  ultimately show ?thesis
    by (cases "k < 0"; cases "k = 0") (simp_all add: signed_divide_int_def sgn_if)
qed


lemma addSec_in_range:
  assumes "- (2 ^ 63) \<le> sint (ext t) + sint d" and "sint (ext t) + sint d < 2 ^ 63"
  shows "addSec t d = t\<lparr>ext := ext t + d\<rparr>" and "sint (ext t + d) = sint (ext t) + sint d"
proof -
  show s: "sint (ext t + d) = sint (ext t) + sint d"
    using assms by (rule sint_add_64)
  then show "addSec t d = t\<lparr>ext := ext t + d\<rparr>"
    by (auto simp: addSec_def Let_def)
qed

lemma Time_Add_nanos:
  assumes v: "0 \<le> sint (nsec t)" "sint (nsec t) < 1000000000"
    and r: "- (2 ^ 62) \<le> sint (ext t)" "sint (ext t) < 2 ^ 62"
  shows "nanos (Time_Add t d) = nanos t + sint d
     \<and> 0 \<le> sint (nsec (Time_Add t d)) \<and> sint (nsec (Time_Add t d)) < 1000000000"
proof -
  define q where "q = sint d sdiv 1000000000"
  define m where "m = sint d smod 1000000000"
  define dsec :: int64 where "dsec = word_of_int q"
  define ns :: int32 where "ns = nsec t + word_of_int m"
  have d: "q * 1000000000 + m = sint d"
    unfolding q_def m_def by (rule sdiv_mult_smod_eq)
  have mb: "- 1000000000 < m" "m < 1000000000"
    using smod_bounds [of "sint d"] by (simp_all add: m_def)
  have qb: "- 9223372037 \<le> q" "q \<le> 9223372037"
    using sdiv_bounds [of "sint d"] sint_ge [of d] sint_lt [of d] by (simp_all add: q_def)
  have sq: "sint dsec = q"
    unfolding dsec_def using qb by (intro sint_of_int_64) simp_all
  have sm: "sint (word_of_int m :: int32) = m"
    using mb by (intro sint_of_int_32) simp_all
  have sn: "sint ns = sint (nsec t) + m"
    unfolding ns_def using v mb sm by (subst sint_add_32) simp_all
  have e: "Time_Add t d =
     (if sint ns \<ge> 1000000000 then addSec (t\<lparr>nsec := ns - 1000000000\<rparr>) (dsec + 1)
      else if sint ns < 0 then addSec (t\<lparr>nsec := ns + 1000000000\<rparr>) (dsec - 1)
      else addSec (t\<lparr>nsec := ns\<rparr>) dsec)"
    by (simp add: Time_Add_def Let_def dsec_def ns_def q_def m_def)
  have c: "sint (1000000000 :: int32) = 1000000000" "sint (1 :: int64) = 1"
    by simp_all
  consider (hi) "sint ns \<ge> 1000000000" | (lo) "sint ns < 0" | (mid) "0 \<le> sint ns" "sint ns < 1000000000"
    by linarith
  then show ?thesis
  proof cases
    case hi
    have n': "sint (ns - 1000000000) = sint ns - 1000000000"
      using sn v mb hi c by (subst sint_diff_32) simp_all
    have q': "sint (dsec + 1) = q + 1"
      using sq qb c by (subst sint_add_64) simp_all
    have a: "addSec (t\<lparr>nsec := ns - 1000000000\<rparr>) (dsec + 1)
        = t\<lparr>nsec := ns - 1000000000, ext := ext t + (dsec + 1)\<rparr>"
      and b: "sint (ext t + (dsec + 1)) = sint (ext t) + sint (dsec + 1)"
      using addSec_in_range [of "t\<lparr>nsec := ns - 1000000000\<rparr>" "dsec + 1"] r q' qb by simp_all
    have eq: "Time_Add t d = t\<lparr>nsec := ns - 1000000000, ext := ext t + (dsec + 1)\<rparr>"
      unfolding e using hi a by simp
    have x: "sint (ext (Time_Add t d)) = sint (ext t) + (q + 1)"
      and y: "sint (nsec (Time_Add t d)) = sint ns - 1000000000"
      unfolding eq using b q' n' by simp_all
    show ?thesis
      unfolding nanos_def x y using hi sn d v mb by (simp add: algebra_simps)
  next
    case lo
    have n': "sint (ns + 1000000000) = sint ns + 1000000000"
      using sn v mb lo c by (subst sint_add_32) simp_all
    have q': "sint (dsec - 1) = q - 1"
      using sq qb c by (subst sint_diff_64) simp_all
    have a: "addSec (t\<lparr>nsec := ns + 1000000000\<rparr>) (dsec - 1)
        = t\<lparr>nsec := ns + 1000000000, ext := ext t + (dsec - 1)\<rparr>"
      and b: "sint (ext t + (dsec - 1)) = sint (ext t) + sint (dsec - 1)"
      using addSec_in_range [of "t\<lparr>nsec := ns + 1000000000\<rparr>" "dsec - 1"] r q' qb by simp_all
    have eq: "Time_Add t d = t\<lparr>nsec := ns + 1000000000, ext := ext t + (dsec - 1)\<rparr>"
      unfolding e using lo a by simp
    have x: "sint (ext (Time_Add t d)) = sint (ext t) + (q - 1)"
      and y: "sint (nsec (Time_Add t d)) = sint ns + 1000000000"
      unfolding eq using b q' n' by simp_all
    show ?thesis
      unfolding nanos_def x y using lo sn d v mb by (simp add: algebra_simps)
  next
    case mid
    have a: "addSec (t\<lparr>nsec := ns\<rparr>) dsec = t\<lparr>nsec := ns, ext := ext t + dsec\<rparr>"
      and b: "sint (ext t + dsec) = sint (ext t) + sint dsec"
      using addSec_in_range [of "t\<lparr>nsec := ns\<rparr>" dsec] r sq qb by simp_all
    have eq: "Time_Add t d = t\<lparr>nsec := ns, ext := ext t + dsec\<rparr>"
      unfolding e using mid a by simp
    have x: "sint (ext (Time_Add t d)) = sint (ext t) + q"
      and y: "sint (nsec (Time_Add t d)) = sint ns"
      unfolding eq using b sq by simp_all
    show ?thesis
      unfolding nanos_def x y using mid sn d by (simp add: algebra_simps)
  qed
qed


lemma nanos_inj:
  assumes "0 \<le> sint (nsec a)" "sint (nsec a) < 1000000000"
    and "0 \<le> sint (nsec b)" "sint (nsec b) < 1000000000"
    and "nanos a = nanos b"
  shows "a = b"
proof -
  have "nanos a div 1000000000 = sint (ext a)" "nanos a mod 1000000000 = sint (nsec a)"
    using assms(1,2) by (simp_all add: nanos_def)
  moreover have "nanos b div 1000000000 = sint (ext b)" "nanos b mod 1000000000 = sint (nsec b)"
    using assms(3,4) by (simp_all add: nanos_def)
  ultimately have "sint (ext a) = sint (ext b)" "sint (nsec a) = sint (nsec b)"
    using assms(5) by simp_all
  then have "ext a = ext b" "nsec a = nsec b"
    by (simp_all add: sint_inj)
  then show ?thesis by simp
qed

text \<open>
  C10: \<^verbatim>\<open>Bucket.Add\<close> of a key whose fingerprint is not mapped succeeds and stores the entry
  with the expiration \<^verbatim>\<open>now.Add(expiresIn)\<close>, for every duration, with no special case for
  a zero duration. For a clock reading \<open>now\<close> that expiration is the instant of \<open>now\<close> plus
  \<open>expiresIn\<close> nanoseconds, and for a zero duration it is \<open>now\<close> itself, the time of the
  insertion.
\<close>

theorem Bucket_Add_expiration:
  "keys t (hk (name b) key) = None \<Longrightarrow>
     fst (Bucket_Add key item expiresIn now b t) = None
     \<and> (\<exists>idx. keys (snd (snd (Bucket_Add key item expiresIn now b t))) (hk (name b) key) = Some idx
           \<and> idx < length (slots (snd (snd (Bucket_Add key item expiresIn now b t))))
           \<and> slots (snd (snd (Bucket_Add key item expiresIn now b t))) ! idx
               = \<lparr>Item = item, ExpiresAt = Time_Add now expiresIn, empty = False\<rparr>)
     \<and> (expiresIn = 0 \<and> 0 \<le> sint (nsec now) \<and> sint (nsec now) < 1000000000
          \<longrightarrow> Time_Add now expiresIn = now)
     \<and> (0 \<le> sint (nsec now) \<and> sint (nsec now) < 1000000000
          \<and> - (2 ^ 62) \<le> sint (ext now) \<and> sint (ext now) < 2 ^ 62
          \<longrightarrow> nanos (Time_Add now expiresIn) = nanos now + sint expiresIn
              \<and> 0 \<le> sint (nsec (Time_Add now expiresIn))
              \<and> sint (nsec (Time_Add now expiresIn)) < 1000000000)"
proof -
  assume k: "keys t (hk (name b) key) = None"
  have s: "snd (snd (Bucket_Add key item expiresIn now b t))
      = snd (add (hk (name b) key) item (Time_Add now expiresIn) t)"
    by (simp add: Bucket_Add_def Let_def case_prod_beta)
  have f: "fst (Bucket_Add key item expiresIn now b t) = None"
    using add_fst [OF k, of item "Time_Add now expiresIn"]
    by (simp add: Bucket_Add_def Let_def case_prod_beta)
  from add_keys [OF k, of item "Time_Add now expiresIn"]
  have e: "\<exists>idx. keys (snd (snd (Bucket_Add key item expiresIn now b t))) (hk (name b) key) = Some idx
           \<and> idx < length (slots (snd (snd (Bucket_Add key item expiresIn now b t))))
           \<and> slots (snd (snd (Bucket_Add key item expiresIn now b t))) ! idx
               = \<lparr>Item = item, ExpiresAt = Time_Add now expiresIn, empty = False\<rparr>"
    unfolding s by auto
  have z: "Time_Add now expiresIn = now"
    if "expiresIn = 0 \<and> 0 \<le> sint (nsec now) \<and> sint (nsec now) < 1000000000"
    using that by (simp add: Time_Add_zero)
  have l: "nanos (Time_Add now expiresIn) = nanos now + sint expiresIn
              \<and> 0 \<le> sint (nsec (Time_Add now expiresIn))
              \<and> sint (nsec (Time_Add now expiresIn)) < 1000000000"
    if "0 \<le> sint (nsec now) \<and> sint (nsec now) < 1000000000
          \<and> - (2 ^ 62) \<le> sint (ext now) \<and> sint (ext now) < 2 ^ 62"
    using that by (intro Time_Add_nanos) simp_all
  from f e z l show ?thesis by blast
qed

theorem Bucket_Add_expiration_witness:
  "keys store_xy (hk (name bucket_xy) ''z'') = None
     \<and> fst (Bucket_Add ''z'' 3 1500000001 (Unix 1700000200 999999999) bucket_xy store_xy) = None
     \<and> keys (snd (snd (Bucket_Add ''z'' 3 1500000001 (Unix 1700000200 999999999) bucket_xy store_xy)))
          (hk (name bucket_xy) ''z'') = Some 0
     \<and> slots (snd (snd (Bucket_Add ''z'' 3 1500000001 (Unix 1700000200 999999999) bucket_xy store_xy))) ! 0
          = \<lparr>Item = 3, ExpiresAt = Unix 1700000202 500000000, empty = False\<rparr>
     \<and> nanos (Unix 1700000202 500000000) = nanos (Unix 1700000200 999999999) + 1500000001
     \<and> ExpiresAt (slots (snd (snd
          (Bucket_Add ''x'' (1::nat) 0 (Unix 1700000000 5) bucket_b (NewCache None)))) ! 0)
          = Unix 1700000000 5"
proof -
  let ?now = "Unix 1700000200 999999999"
  let ?t' = "snd (snd (Bucket_Add ''z'' 3 1500000001 ?now bucket_xy store_xy))"
  let ?t0 = "snd (snd (Bucket_Add ''x'' (1::nat) 0 (Unix 1700000000 5) bucket_b (NewCache None)))"
  have k: "keys store_xy (hk (name bucket_xy) ''z'') = None"
    unfolding bucket_xy_eq store_xy_eq by (simp add: hk_def pk_def fnv64a_def)
  have v: "0 \<le> sint (nsec ?now) \<and> sint (nsec ?now) < 1000000000
      \<and> - (2 ^ 62) \<le> sint (ext ?now) \<and> sint (ext ?now) < 2 ^ 62"
    by (simp add: Unix_def unixToInternal_def)
  have a: "Time_Add ?now 1500000001 = Unix 1700000202 500000000"
    by (simp add: eval_simps)
  have sd: "sint (1500000001 :: Duration) = 1500000001"
    by simp
  note w = Bucket_Add_expiration [OF k, where item = 3 and expiresIn = 1500000001 and now = ?now]
  from w have 1: "fst (Bucket_Add ''z'' 3 1500000001 ?now bucket_xy store_xy) = None"
    by (rule conjunct1)
  from w obtain idx where i: "keys ?t' (hk (name bucket_xy) ''z'') = Some idx"
    and x: "slots ?t' ! idx = \<lparr>Item = 3, ExpiresAt = Time_Add ?now 1500000001, empty = False\<rparr>"
    by blast
  have 2: "keys ?t' (hk (name bucket_xy) ''z'') = Some 0"
    unfolding bucket_xy_eq store_xy_eq
    by (simp add: Bucket_Add_def add_def Let_def hk_def pk_def fnv64a_def)
  from i 2 have "idx = 0" by simp
  with x a have 3: "slots ?t' ! 0 = \<lparr>Item = 3, ExpiresAt = Unix 1700000202 500000000, empty = False\<rparr>"
    by simp
  from w v have "nanos (Time_Add ?now 1500000001) = nanos ?now + sint (1500000001 :: Duration)"
    by blast
  then have 4: "nanos (Unix 1700000202 500000000) = nanos ?now + 1500000001"
    unfolding a sd .
  have k0: "keys (NewCache None :: nat Cache) (hk (name bucket_b) ''x'') = None"
    by (simp add: NewCache_def Let_def)
  have v0: "(0::Duration) = 0 \<and> 0 \<le> sint (nsec (Unix 1700000000 5))
      \<and> sint (nsec (Unix 1700000000 5)) < 1000000000"
    by (simp add: Unix_def)
  note w0 = Bucket_Add_expiration [OF k0, where item = 1 and expiresIn = 0
      and now = "Unix 1700000000 5"]
  from w0 v0 have z: "Time_Add (Unix 1700000000 5) 0 = Unix 1700000000 5"
    by blast
  from w0 obtain idx0 where i0: "keys ?t0 (hk (name bucket_b) ''x'') = Some idx0"
    and x0: "slots ?t0 ! idx0 = \<lparr>Item = 1, ExpiresAt = Time_Add (Unix 1700000000 5) 0, empty = False\<rparr>"
    by blast
  have "keys ?t0 (hk (name bucket_b) ''x'') = Some 0"
    by (simp add: Bucket_Add_def bucket_b_def add_def NewCache_def Let_def)
  with i0 have "idx0 = 0" by simp
  with x0 z have 5: "ExpiresAt (slots ?t0 ! 0) = Unix 1700000000 5" by simp
  from k 1 2 3 4 5 show ?thesis by (intro conjI)
qed

end
